theory Spec2Isabelle
  imports Main "HOL-Library.Word"
begin

unbundle bit_operations_syntax

section \<open>Python and NumPy primitives\<close>

text \<open>
  Exceptions of the Python source are values: every function that can raise returns
  \<open>error + 'a\<close>, with \<open>Inl\<close> the exception. The string is the message of the source.
\<close>

datatype error =
    ValueError string
  | IndexError string
  | FileNotFoundError string
  | OverflowError string
  | ZeroDivisionError string

text \<open>A NumPy array of dtype \<open>uint8\<close> is a list of 8-bit words.\<close>

type_synonym u8 = "8 word"

text \<open>\<open>xs[i]\<close> on a Python list or a NumPy array: a negative index counts from the end,
  an index out of range raises IndexError.\<close>

definition py_get :: "'a list \<Rightarrow> int \<Rightarrow> error + 'a" where
  "py_get xs i =
     (if 0 \<le> i \<and> i < int (length xs) then Inr (xs ! nat i)
      else if i < 0 \<and> - int (length xs) \<le> i then Inr (xs ! nat (int (length xs) + i))
      else Inl (IndexError ''index out of range''))"

text \<open>\<open>xs[a:b]\<close>: both bounds are clipped into the list, negative bounds count from the end.\<close>

definition py_clip :: "nat \<Rightarrow> int \<Rightarrow> nat" where
  "py_clip n i = (if i < 0 then nat (max 0 (int n + i)) else min n (nat i))"

definition py_slice :: "'a list \<Rightarrow> int \<Rightarrow> int \<Rightarrow> 'a list" where
  "py_slice xs a b = (let lo = py_clip (length xs) a; hi = py_clip (length xs) b
                      in take (hi - lo) (drop lo xs))"

text \<open>\<open>xs[:k]\<close>.\<close>

definition py_prefix :: "'a list \<Rightarrow> int \<Rightarrow> 'a list" where
  "py_prefix xs k = take (py_clip (length xs) k) xs"

text \<open>\<open>range(a, b)\<close> and \<open>range(a, b, step)\<close> for a positive step.\<close>

definition py_range :: "int \<Rightarrow> int \<Rightarrow> int list" where
  "py_range a b = [a..b - 1]"

function range_step :: "int \<Rightarrow> int \<Rightarrow> int \<Rightarrow> int list" where
  "range_step a b s = (if a < b \<and> 0 < s then a # range_step (a + s) b s else [])"
  by pat_completeness auto
termination
  by (relation "measure (\<lambda>(a, b, s). nat (b - a))") auto

declare range_step.simps [simp del]

section \<open>patterns.py: Pattern\<close>

record pattern =
  digits :: "int list"
  spacing :: "int list option"

text \<open>\<open>Pattern.__init__\<close>: the only validation is the length of the spacing list.\<close>

definition Pattern_init :: "int list \<Rightarrow> int list option \<Rightarrow> error + pattern" where
  "Pattern_init ds sp =
     (case sp of
        Some s \<Rightarrow>
          if int (length s) \<noteq> int (length ds) - 1
          then Inl (ValueError ''Spacing list must be one element shorter than digit list'')
          else Inr \<lparr>digits = ds, spacing = sp\<rparr>
      | None \<Rightarrow> Inr \<lparr>digits = ds, spacing = sp\<rparr>)"

definition pattern_length :: "pattern \<Rightarrow> int" where
  "pattern_length p = int (length (digits p))"

definition total_span :: "pattern \<Rightarrow> int" where
  "total_span p = (case spacing p of None \<Rightarrow> pattern_length p
                   | Some s \<Rightarrow> pattern_length p + sum_list s)"

definition is_contiguous :: "pattern \<Rightarrow> bool" where
  "is_contiguous p = (case spacing p of None \<Rightarrow> True | Some s \<Rightarrow> list_all (\<lambda>x. x = 0) s)"

text \<open>The loop of the contiguous branch, \<open>for i, digit in enumerate(self.digits)\<close>:
  the digits still to compare and the index \<open>i\<close> of the first of them.\<close>

fun match_contiguous :: "int list \<Rightarrow> int \<Rightarrow> u8 list \<Rightarrow> int \<Rightarrow> error + bool" where
  "match_contiguous [] i stream start_pos = Inr True"
| "match_contiguous (d # ds) i stream start_pos =
     (case py_get stream (start_pos + i) of
        Inl e \<Rightarrow> Inl e
      | Inr v \<Rightarrow> if uint v \<noteq> d then Inr False
                 else match_contiguous ds (i + 1) stream start_pos)"

text \<open>The loop of the branch with spacing; \<open>n\<close> is \<open>len(self.digits)\<close>.\<close>

fun match_spaced ::
  "int list \<Rightarrow> int \<Rightarrow> int \<Rightarrow> int list \<Rightarrow> u8 list \<Rightarrow> int \<Rightarrow> error + (bool \<times> int)" where
  "match_spaced [] i n sp stream current_pos = Inr (True, current_pos + 1)"
| "match_spaced (d # ds) i n sp stream current_pos =
     (if current_pos \<ge> int (length stream) then Inr (False, -1)
      else case py_get stream current_pos of
        Inl e \<Rightarrow> Inl e
      | Inr v \<Rightarrow>
          if uint v \<noteq> d then Inr (False, -1)
          else if i < n - 1 then
            (case py_get sp i of
               Inl e \<Rightarrow> Inl e
             | Inr s \<Rightarrow> match_spaced ds (i + 1) n sp stream (current_pos + 1 + s))
          else match_spaced ds (i + 1) n sp stream current_pos)"

definition match_at_position :: "pattern \<Rightarrow> u8 list \<Rightarrow> int \<Rightarrow> error + (bool \<times> int)" where
  "match_at_position p stream start_pos =
     (if start_pos < 0 \<or> start_pos \<ge> int (length stream) then Inr (False, -1)
      else if is_contiguous p then
        (if start_pos + pattern_length p > int (length stream) then Inr (False, -1)
         else case match_contiguous (digits p) 0 stream start_pos of
                Inl e \<Rightarrow> Inl e
              | Inr False \<Rightarrow> Inr (False, -1)
              | Inr True \<Rightarrow> Inr (True, start_pos + pattern_length p))
      else match_spaced (digits p) 0 (pattern_length p) (the (spacing p)) stream start_pos)"
  \<comment> \<open>\<open>is_contiguous\<close> holds when there is no spacing, so the last branch has one.\<close>

section \<open>patterns.py: PatternMatcher\<close>

record pattern_matcher =
  threads :: "int option"
  follow_digits :: int

type_synonym match = "int \<times> u8 list"

definition extract_follow_digits :: "pattern_matcher \<Rightarrow> u8 list \<Rightarrow> int \<Rightarrow> u8 list" where
  "extract_follow_digits m stream end_pos =
     (let available = min (follow_digits m) (int (length stream) - end_pos)
      in if available \<le> 0 then []
         else py_slice stream end_pos (end_pos + available))"

text \<open>The body shared, word for word, by \<open>_find_pattern_sequential\<close> and
  \<open>_search_chunk\<close>: a scan of the positions in order that appends every match and
  breaks once \<open>len(results) >= max_positions\<close>.\<close>

fun scan_positions ::
  "pattern_matcher \<Rightarrow> pattern \<Rightarrow> u8 list \<Rightarrow> int \<Rightarrow> int list \<Rightarrow> match list \<Rightarrow> error + match list"
where
  "scan_positions m p stream max_positions [] results = Inr results"
| "scan_positions m p stream max_positions (pos # rest) results =
     (case match_at_position p stream pos of
        Inl e \<Rightarrow> Inl e
      | Inr (match_found, end_pos) \<Rightarrow>
          if match_found then
            (let results' = results @ [(pos, extract_follow_digits m stream end_pos)]
             in if int (length results') \<ge> max_positions then Inr results'
                else scan_positions m p stream max_positions rest results')
          else scan_positions m p stream max_positions rest results)"

definition find_pattern_sequential ::
  "pattern_matcher \<Rightarrow> pattern \<Rightarrow> u8 list \<Rightarrow> int \<Rightarrow> int \<Rightarrow> error + match list" where
  "find_pattern_sequential m p stream max_positions start_from =
     scan_positions m p stream max_positions
       (py_range start_from (int (length stream) - pattern_length p + 1)) []"

definition search_chunk ::
  "pattern_matcher \<Rightarrow> pattern \<Rightarrow> u8 list \<Rightarrow> int \<Rightarrow> int \<Rightarrow> int \<Rightarrow> error + match list" where
  "search_chunk m p stream start end max_positions =
     scan_positions m p stream max_positions (py_range start end) []"

text \<open>\<open>for future in futures\<close>: the futures are read in the order they were submitted;
  \<open>future.result()\<close> re-raises the exception of its task.\<close>

fun gather_futures :: "int \<Rightarrow> (error + match list) list \<Rightarrow> match list \<Rightarrow> error + match list"
where
  "gather_futures max_positions [] results = Inr results"
| "gather_futures max_positions (future # rest) results =
     (case future of
        Inl e \<Rightarrow> Inl e
      | Inr chunk_results \<Rightarrow>
          (let results' = results @ chunk_results
           in if int (length results') \<ge> max_positions then Inr results'
              else gather_futures max_positions rest results'))"

definition search_chunks :: "int \<Rightarrow> int \<Rightarrow> int \<Rightarrow> (int \<times> int) list" where
  "search_chunks start_from stream_length chunk_size =
     map (\<lambda>i. (max start_from i, min (i + chunk_size) stream_length))
       (range_step start_from stream_length chunk_size)"

text \<open>\<open>cpu_count\<close> is \<open>multiprocessing.cpu_count()\<close>. \<open>ThreadPoolExecutor\<close> raises
  ValueError for \<open>max_workers <= 0\<close>.\<close>

definition find_pattern_parallel ::
  "int \<Rightarrow> pattern_matcher \<Rightarrow> pattern \<Rightarrow> u8 list \<Rightarrow> int \<Rightarrow> int \<Rightarrow> error + match list" where
  "find_pattern_parallel cpu_count m p stream max_positions start_from =
     (let nthreads = (case threads m of
                        None \<Rightarrow> max 1 (cpu_count - 1)
                      | Some t \<Rightarrow> if t = 0 then max 1 (cpu_count - 1) else t);
          stream_length = int (length stream) - pattern_length p + 1;
          chunk_size = max 1000 (stream_length div nthreads);
          chunks = search_chunks start_from stream_length chunk_size
      in if nthreads \<le> 0 then Inl (ValueError ''max_workers must be greater than 0'')
         else
           let futures = map (\<lambda>(start, end). search_chunk m p stream start end max_positions) chunks
           in case gather_futures max_positions futures [] of
                Inl e \<Rightarrow> Inl e
              | Inr results \<Rightarrow> Inr (py_prefix (sort_key fst results) max_positions))"

definition find_pattern ::
  "int \<Rightarrow> pattern_matcher \<Rightarrow> pattern \<Rightarrow> u8 list \<Rightarrow> int \<Rightarrow> int \<Rightarrow> error + match list" where
  "find_pattern cpu_count m p stream max_positions start_from =
     (case (if length stream > 10000 \<and> threads m \<noteq> Some 0 \<and> threads m \<noteq> Some 1
            then find_pattern_parallel cpu_count m p stream max_positions start_from
            else find_pattern_sequential m p stream max_positions start_from) of
        Inl e \<Rightarrow> Inl e
      | Inr results \<Rightarrow> Inr (sort_key fst results))"
subsection \<open>The matching rule as the specification words it\<close>

text \<open>Cumulative offsets: \<open>c\<^sub>0 = 0\<close>, \<open>c\<^sub>i = c\<^sub>i\<^sub>-\<^sub>1 + 1 + spacing[i-1]\<close>, and \<open>c\<^sub>i = i\<close>
  when there is no spacing.\<close>

fun spec_offset :: "int list option \<Rightarrow> nat \<Rightarrow> int" where
  "spec_offset None i = int i"
| "spec_offset (Some s) 0 = 0"
| "spec_offset (Some s) (Suc i) = spec_offset (Some s) i + 1 + s ! i"

definition spec_match :: "pattern \<Rightarrow> u8 list \<Rightarrow> int \<Rightarrow> bool" where
  "spec_match p stream pos =
     list_all (\<lambda>i. pos + spec_offset (spacing p) i < int (length stream)
                  \<and> uint (stream ! nat (pos + spec_offset (spacing p) i)) = digits p ! i)
       [0..<length (digits p)]"

text \<open>End position \<open>p + c\<^sub>last + 1\<close> and follow sequence \<open>stream[end .. end+follow_digits)\<close>,
  cut at the end of the stream.\<close>

definition spec_end :: "pattern \<Rightarrow> int \<Rightarrow> int" where
  "spec_end p pos = pos + spec_offset (spacing p) (length (digits p) - 1) + 1"

definition spec_follow :: "pattern_matcher \<Rightarrow> u8 list \<Rightarrow> int \<Rightarrow> u8 list" where
  "spec_follow m stream end_pos = take (nat (follow_digits m)) (drop (nat end_pos) stream)"

subsection \<open>The matches of a stream, in ascending order\<close>

text \<open>The entry that a scan appends at a position, if the pattern matches there.\<close>

definition match_entry :: "pattern_matcher \<Rightarrow> pattern \<Rightarrow> u8 list \<Rightarrow> int \<Rightarrow> match option" where
  "match_entry m p stream pos =
     (case match_at_position p stream pos of
        Inr (True, end_pos) \<Rightarrow> Some (pos, extract_follow_digits m stream end_pos)
      | _ \<Rightarrow> None)"

text \<open>Every match from \<open>start_from\<close> on, left to right.\<close>

definition all_matches :: "pattern_matcher \<Rightarrow> pattern \<Rightarrow> u8 list \<Rightarrow> int \<Rightarrow> match list" where
  "all_matches m p stream start_from =
     List.map_filter (match_entry m p stream)
       (py_range start_from (int (length stream) - pattern_length p + 1))"

text \<open>No position of the stream raises: the pattern can be compared everywhere.\<close>

definition scan_safe :: "pattern \<Rightarrow> u8 list \<Rightarrow> bool" where
  "scan_safe p stream = (\<forall>pos. \<exists>r. match_at_position p stream pos = Inr r)"

section \<open>digits.py: DigitStore\<close>

text \<open>The file written by \<open>download_digits\<close> when no built-in digit file is found.\<close>

definition PI_START :: string where
  "PI_START = ''3.1415926535897932384626433832795028841971693993751058209749445923078164062862089986280348253421170679''"

definition E_START :: string where
  "E_START = ''2.7182818284590452353602874713526624977572470936999595749669676277240766303535475945713821785251664274''"

text \<open>
  A memory-mapped file is its bytes; \<open>chr(mmap[pos])\<close> is the Latin-1 character of a
  byte. \<open>str.isdigit\<close> holds for the ten ASCII digits and, among the Latin-1
  characters, for the superscripts two, three and one (bytes B2, B3 and B9), on which
  \<open>int(char)\<close> raises ValueError.
\<close>

definition ascii_digit :: "char \<Rightarrow> bool" where
  "ascii_digit c = (48 \<le> (of_char c :: nat) \<and> (of_char c :: nat) \<le> 57)"

definition isdigit :: "char \<Rightarrow> bool" where
  "isdigit c = (ascii_digit c \<or> (of_char c :: nat) = 178 \<or> (of_char c :: nat) = 179
                 \<or> (of_char c :: nat) = 185)"

definition int_of_char :: "char \<Rightarrow> error + u8" where
  "int_of_char c = (if ascii_digit c then Inr (of_nat ((of_char c :: nat) - 48))
                    else Inl (ValueError ''invalid literal for int() with base 10''))"

text \<open>\<open>while pos < len(mmap) and chr(mmap[pos]) != '.': pos += 1\<close>\<close>

function find_point :: "string \<Rightarrow> nat \<Rightarrow> nat" where
  "find_point f pos =
     (if pos < length f \<and> f ! pos \<noteq> CHR ''.'' then find_point f (pos + 1) else pos)"
  by pat_completeness auto
termination
  by (relation "measure (\<lambda>(f, pos). length f - pos)") auto

declare find_point.simps [simp del]

text \<open>
  The inner loop of the skip: one digit is passed over. The wrap to position 0 comes
  after the \<open>break\<close>, so it is not reached when the digit read is the last byte of the
  file; and the loop does not run at all once \<open>pos = len(mmap)\<close>. On a file without a
  digit that ends in a byte that is no digit the loop does not end: \<open>None\<close>.
\<close>

partial_function (option) skip_digit :: "string \<Rightarrow> nat \<Rightarrow> nat option" where
  "skip_digit f pos =
     (if pos < length f then
        (if isdigit (f ! pos) then Some (pos + 1)
         else if pos + 1 \<ge> length f then skip_digit f 0
         else skip_digit f (pos + 1))
      else Some pos)"

declare skip_digit.simps [code]

text \<open>\<open>for _ in range(start)\<close>\<close>

fun skip_digits :: "string \<Rightarrow> nat \<Rightarrow> nat \<Rightarrow> nat option" where
  "skip_digits f 0 pos = Some pos"
| "skip_digits f (Suc n) pos =
     (case skip_digit f pos of None \<Rightarrow> None | Some pos' \<Rightarrow> skip_digits f n pos')"

text \<open>
  \<open>while digit_count < length\<close>: the array \<open>digits\<close> (here \<open>arr\<close>) is filled from the left.
  \<open>mmap[0]\<close> on an empty map would raise IndexError. On a file without a digit the loop
  does not end.
\<close>

partial_function (option) read_digits ::
  "string \<Rightarrow> nat \<Rightarrow> u8 list \<Rightarrow> nat \<Rightarrow> nat \<Rightarrow> (error + u8 list) option" where
  "read_digits f pos arr digit_count len =
     (if digit_count < len then
        (let pos1 = (if pos \<ge> length f then 0 else pos) in
         if pos1 \<ge> length f then Some (Inl (IndexError ''mmap index out of range''))
         else if isdigit (f ! pos1) then
           (case int_of_char (f ! pos1) of
              Inl e \<Rightarrow> Some (Inl e)
            | Inr v \<Rightarrow> read_digits f (pos1 + 1) (arr[digit_count := v]) (digit_count + 1) len)
         else read_digits f (pos1 + 1) arr digit_count len)
      else Some (Inr arr))"

declare read_digits.simps [code]

text \<open>
  The part of \<open>get_pi_digits\<close> and \<open>get_e_digits\<close> between the cache lookup and the
  cache update, on the bytes of the mapped file.
\<close>

definition extract_digits :: "string \<Rightarrow> int \<Rightarrow> int \<Rightarrow> (error + u8 list) option" where
  "extract_digits f start len =
     (let pos = find_point f 0 + 1 in
      case skip_digits f (nat start) pos of
        None \<Rightarrow> None
      | Some pos' \<Rightarrow> read_digits f pos' (replicate (nat len) 0) 0 (nat len))"

text \<open>
  The store. \<open>pi_file\<close> and \<open>e_file\<close> are the bytes of \<open>pi_1m.txt\<close> and \<open>e_1m.txt\<close> in the
  data directory (\<open>None\<close>: the file does not exist); they do not change while the
  process runs. The caches are dictionaries from \<open>(start, length)\<close> to a copy of the
  digits, kept in insertion order. The state of the store after an exception is not
  modelled.
\<close>

record digit_store =
  pi_file :: "string option"
  e_file :: "string option"
  pi_mmap :: "string option"
  e_mmap :: "string option"
  pi_cache :: "((int \<times> int) \<times> u8 list) list"
  e_cache :: "((int \<times> int) \<times> u8 list) list"

definition DigitStore_init :: "string option \<Rightarrow> string option \<Rightarrow> digit_store" where
  "DigitStore_init pf ef =
     \<lparr>pi_file = pf, e_file = ef, pi_mmap = None, e_mmap = None, pi_cache = [], e_cache = []\<rparr>"

text \<open>\<open>open\<close>: \<open>mmap.mmap\<close> raises ValueError on an empty file.\<close>

definition DigitStore_open :: "digit_store \<Rightarrow> error + digit_store" where
  "DigitStore_open s =
     (case (pi_file s, e_file s) of
        (Some pf, Some ef) \<Rightarrow>
          if pf = [] \<or> ef = [] then Inl (ValueError ''cannot mmap an empty file'')
          else Inr (s\<lparr>pi_mmap := Some pf, e_mmap := Some ef\<rparr>)
      | _ \<Rightarrow> Inl (FileNotFoundError ''Digit files not found. Run download_digits() first.''))"

definition get_pi_digits ::
  "digit_store \<Rightarrow> int \<Rightarrow> int \<Rightarrow> (error + (u8 list \<times> digit_store)) option" where
  "get_pi_digits s start len =
     (if start < 0 \<or> len \<le> 0 then Some (Inl (ValueError ''Invalid start or length''))
      else case map_of (pi_cache s) (start, len) of
        Some cached \<Rightarrow> Some (Inr (cached, s))
      | None \<Rightarrow>
          (case (if pi_mmap s = None then DigitStore_open s else Inr s) of
             Inl e \<Rightarrow> Some (Inl e)
           | Inr s1 \<Rightarrow>
               (case extract_digits (the (pi_mmap s1)) start len of
                  None \<Rightarrow> None
                | Some (Inl e) \<Rightarrow> Some (Inl e)
                | Some (Inr ds) \<Rightarrow>
                    Some (Inr (ds, if length (pi_cache s1) < 100
                                   then s1\<lparr>pi_cache := pi_cache s1 @ [((start, len), ds)]\<rparr>
                                   else s1)))))"

definition get_e_digits ::
  "digit_store \<Rightarrow> int \<Rightarrow> int \<Rightarrow> (error + (u8 list \<times> digit_store)) option" where
  "get_e_digits s start len =
     (if start < 0 \<or> len \<le> 0 then Some (Inl (ValueError ''Invalid start or length''))
      else case map_of (e_cache s) (start, len) of
        Some cached \<Rightarrow> Some (Inr (cached, s))
      | None \<Rightarrow>
          (case (if e_mmap s = None then DigitStore_open s else Inr s) of
             Inl e \<Rightarrow> Some (Inl e)
           | Inr s1 \<Rightarrow>
               (case extract_digits (the (e_mmap s1)) start len of
                  None \<Rightarrow> None
                | Some (Inl e) \<Rightarrow> Some (Inl e)
                | Some (Inr ds) \<Rightarrow>
                    Some (Inr (ds, if length (e_cache s1) < 100
                                   then s1\<lparr>e_cache := e_cache s1 @ [((start, len), ds)]\<rparr>
                                   else s1)))))"

text \<open>The digits returned, without the store.\<close>

definition returned :: "(error + ('a \<times> 's)) option \<Rightarrow> (error + 'a) option" where
  "returned r = map_option (map_sum id fst) r"

section \<open>streams.py\<close>

text \<open>
  \<open>result + chunk\<close> on two \<open>uint8\<close> arrays of one length adds componentwise and wraps at
  256. \<open>array % modulus\<close> with a Python integer that fits \<open>uint8\<close> stays in \<open>uint8\<close>; the
  remainder by zero is 0 (NumPy warns, it does not raise). For a modulus outside
  \<open>[0, 255]\<close> NumPy 2 raises OverflowError, as modelled here, and NumPy 1 widens the
  array; nothing below is stated about that case.
\<close>

definition np_add :: "u8 list \<Rightarrow> u8 list \<Rightarrow> u8 list" where
  "np_add a b = map2 (+) a b"

definition np_mod :: "u8 list \<Rightarrow> int \<Rightarrow> error + u8 list" where
  "np_mod a modulus =
     (if modulus < 0 \<or> 255 < modulus
      then Inl (OverflowError ''Python integer out of bounds for uint8'')
      else Inr (map (\<lambda>x. if modulus = 0 then 0 else x mod word_of_int modulus) a))"

text \<open>The two loops of \<open>_generate_stream_chunk\<close>, over the \<open>\<pi>\<close> offsets and the e offsets.\<close>

fun add_pi_offsets ::
  "digit_store \<Rightarrow> int \<Rightarrow> int \<Rightarrow> int \<Rightarrow> int list \<Rightarrow> u8 list
     \<Rightarrow> (error + (u8 list \<times> digit_store)) option" where
  "add_pi_offsets s start chunk_length modulus [] result = Some (Inr (result, s))"
| "add_pi_offsets s start chunk_length modulus (offset # rest) result =
     (case get_pi_digits s (offset + start) chunk_length of
        None \<Rightarrow> None
      | Some (Inl e) \<Rightarrow> Some (Inl e)
      | Some (Inr (pi_chunk, s')) \<Rightarrow>
          (case np_mod (np_add result pi_chunk) modulus of
             Inl e \<Rightarrow> Some (Inl e)
           | Inr result' \<Rightarrow> add_pi_offsets s' start chunk_length modulus rest result'))"

fun add_e_offsets ::
  "digit_store \<Rightarrow> int \<Rightarrow> int \<Rightarrow> int \<Rightarrow> int list \<Rightarrow> u8 list
     \<Rightarrow> (error + (u8 list \<times> digit_store)) option" where
  "add_e_offsets s start chunk_length modulus [] result = Some (Inr (result, s))"
| "add_e_offsets s start chunk_length modulus (offset # rest) result =
     (case get_e_digits s (offset + start) chunk_length of
        None \<Rightarrow> None
      | Some (Inl e) \<Rightarrow> Some (Inl e)
      | Some (Inr (e_chunk, s')) \<Rightarrow>
          (case np_mod (np_add result e_chunk) modulus of
             Inl e \<Rightarrow> Some (Inl e)
           | Inr result' \<Rightarrow> add_e_offsets s' start chunk_length modulus rest result'))"

text \<open>
  \<open>_generate_stream_chunk\<close> runs in a worker process, on that process's copy of the
  global store; only the array comes back.
\<close>

definition generate_stream_chunk ::
  "digit_store \<Rightarrow> int \<Rightarrow> int \<Rightarrow> int list \<Rightarrow> int list \<Rightarrow> int \<Rightarrow> (error + u8 list) option" where
  "generate_stream_chunk s start end pi_offsets e_offsets modulus =
     (let chunk_length = end - start;
          result = replicate (nat chunk_length) 0
      in case add_pi_offsets s start chunk_length modulus pi_offsets result of
           None \<Rightarrow> None
         | Some (Inl e) \<Rightarrow> Some (Inl e)
         | Some (Inr (result1, s1)) \<Rightarrow>
             returned (add_e_offsets s1 start chunk_length modulus e_offsets result1))"

text \<open>
  \<open>[future.result() for future in futures]\<close>: the first exception in the order of the
  chunks is raised, but the \<open>with\<close> block waits for every task, so one task that does
  not end keeps the call from returning.
\<close>

fun first_error :: "(error + 'a) list \<Rightarrow> error + 'a list" where
  "first_error [] = Inr []"
| "first_error (Inl e # rs) = Inl e"
| "first_error (Inr x # rs) = (case first_error rs of Inl e \<Rightarrow> Inl e | Inr xs \<Rightarrow> Inr (x # xs))"

definition collect_results :: "(error + 'a) option list \<Rightarrow> (error + 'a list) option" where
  "collect_results futures =
     (if list_ex (\<lambda>r. r = None) futures then None
      else Some (first_error (map the futures)))"

definition stream_chunks :: "int \<Rightarrow> int \<Rightarrow> (int \<times> int) list" where
  "stream_chunks len chunk_size =
     map (\<lambda>i. (i, min (i + chunk_size) len)) (range_step 0 len chunk_size)"

text \<open>
  \<open>generate_synthetic_stream\<close>. The store is the one every worker starts from.
  \<open>length // threads\<close> raises ZeroDivisionError for \<open>threads = 0\<close>,
  \<open>ProcessPoolExecutor\<close> raises ValueError for a negative number of workers, and
  \<open>np.concatenate\<close> raises ValueError on an empty list.
\<close>

definition generate_synthetic_stream ::
  "int \<Rightarrow> digit_store \<Rightarrow> int list \<Rightarrow> int list \<Rightarrow> int \<Rightarrow> int \<Rightarrow> int option
     \<Rightarrow> (error + u8 list) option" where
  "generate_synthetic_stream cpu_count s pi_offsets e_offsets len modulus thr =
     (let nthreads = (case thr of None \<Rightarrow> max 1 (cpu_count - 1) | Some t \<Rightarrow> t)
      in if nthreads = 0 then Some (Inl (ZeroDivisionError ''integer division or modulo by zero''))
         else
           let chunk_size = max 1 (len div nthreads);
               chunks = stream_chunks len chunk_size
           in if nthreads < 0 then Some (Inl (ValueError ''max_workers must be greater than 0''))
              else
                case collect_results
                       (map (\<lambda>(start, end).
                               generate_stream_chunk s start end pi_offsets e_offsets modulus)
                          chunks) of
                  None \<Rightarrow> None
                | Some (Inl e) \<Rightarrow> Some (Inl e)
                | Some (Inr results) \<Rightarrow>
                    if results = []
                    then Some (Inl (ValueError ''need at least one array to concatenate''))
                    else Some (Inr (concat results)))"

text \<open>
  NumPy is not part of the repository. \<open>np.random.RandomState(seed)\<close> accepts an integer
  seed between 0 and \<open>2\<^sup>3\<^sup>2 - 1\<close> and raises ValueError for any other; what
  \<open>rng.randint(0, max_offset, size=count).tolist()\<close> returns for an accepted seed is the
  parameter \<open>randint\<close>.
\<close>

definition RandomState :: "int \<Rightarrow> error + int" where
  "RandomState seed =
     (if seed < 0 \<or> 2 ^ 32 - 1 < seed
      then Inl (ValueError ''Seed must be between 0 and 2**32 - 1'')
      else Inr seed)"

definition generate_offsets_from_seed ::
  "(int \<Rightarrow> int \<Rightarrow> int \<Rightarrow> int \<Rightarrow> error + int list) \<Rightarrow> int \<Rightarrow> int \<Rightarrow> error + int list" where
  "generate_offsets_from_seed randint seed count =
     (case RandomState seed of
        Inl e \<Rightarrow> Inl e
      | Inr rng \<Rightarrow> (let max_offset = 1000000000 in randint rng 0 max_offset count))"

text \<open>What the program runs in: the CPU count, the generator and the digit store.\<close>

record environment =
  env_cpu_count :: int
  env_randint :: "int \<Rightarrow> int \<Rightarrow> int \<Rightarrow> int \<Rightarrow> error + int list"
  env_store :: digit_store

definition generate_streams_from_seeds ::
  "environment \<Rightarrow> int \<Rightarrow> int \<Rightarrow> int \<Rightarrow> int \<Rightarrow> int \<Rightarrow> int option \<Rightarrow> (error + u8 list) option"
where
  "generate_streams_from_seeds env pi_seed e_seed num_offsets len modulus thr =
     (case generate_offsets_from_seed (env_randint env) pi_seed num_offsets of
        Inl e \<Rightarrow> Some (Inl e)
      | Inr pi_offsets \<Rightarrow>
          (case generate_offsets_from_seed (env_randint env) e_seed num_offsets of
             Inl e \<Rightarrow> Some (Inl e)
           | Inr e_offsets \<Rightarrow>
               generate_synthetic_stream (env_cpu_count env) (env_store env) pi_offsets e_offsets
                 len modulus thr))"

subsection \<open>StreamGenerator\<close>

record stream_generator =
  sg_pi_offsets :: "int list"
  sg_e_offsets :: "int list"
  sg_modulus :: int
  sg_threads :: "int option"
  sg_cache :: "(int \<times> u8 list) list"

definition StreamGenerator_init ::
  "int list option \<Rightarrow> int list option \<Rightarrow> int \<Rightarrow> int option \<Rightarrow> stream_generator" where
  "StreamGenerator_init pi_offsets e_offsets modulus thr =
     \<lparr>sg_pi_offsets = (case pi_offsets of None \<Rightarrow> [] | Some xs \<Rightarrow> xs),
      sg_e_offsets = (case e_offsets of None \<Rightarrow> [] | Some xs \<Rightarrow> xs),
      sg_modulus = modulus, sg_threads = thr, sg_cache = []\<rparr>"

definition set_parameters ::
  "stream_generator \<Rightarrow> int list option \<Rightarrow> int list option \<Rightarrow> int option \<Rightarrow> int option
     \<Rightarrow> stream_generator" where
  "set_parameters g pi_offsets e_offsets modulus thr =
     \<lparr>sg_pi_offsets = (case pi_offsets of None \<Rightarrow> sg_pi_offsets g | Some xs \<Rightarrow> xs),
      sg_e_offsets = (case e_offsets of None \<Rightarrow> sg_e_offsets g | Some xs \<Rightarrow> xs),
      sg_modulus = (case modulus of None \<Rightarrow> sg_modulus g | Some m \<Rightarrow> m),
      sg_threads = (case thr of None \<Rightarrow> sg_threads g | Some t \<Rightarrow> Some t),
      sg_cache = []\<rparr>"

definition from_seeds ::
  "environment \<Rightarrow> stream_generator \<Rightarrow> int \<Rightarrow> int \<Rightarrow> int \<Rightarrow> error + stream_generator" where
  "from_seeds env g pi_seed e_seed num_offsets =
     (case generate_offsets_from_seed (env_randint env) pi_seed num_offsets of
        Inl e \<Rightarrow> Inl e
      | Inr pi_offsets \<Rightarrow>
          (case generate_offsets_from_seed (env_randint env) e_seed num_offsets of
             Inl e \<Rightarrow> Inl e
           | Inr e_offsets \<Rightarrow> Inr (set_parameters g (Some pi_offsets) (Some e_offsets) None None)))"

definition generate ::
  "environment \<Rightarrow> stream_generator \<Rightarrow> int \<Rightarrow> (error + (u8 list \<times> stream_generator)) option"
where
  "generate env g len =
     (if sg_pi_offsets g = [] \<and> sg_e_offsets g = []
      then Some (Inl (ValueError ''No offsets set. Use set_parameters() or from_seeds() first.''))
      else case map_of (sg_cache g) len of
        Some cached \<Rightarrow> Some (Inr (cached, g))
      | None \<Rightarrow>
          (case generate_synthetic_stream (env_cpu_count env) (env_store env)
                  (sg_pi_offsets g) (sg_e_offsets g) len (sg_modulus g) (sg_threads g) of
             None \<Rightarrow> None
           | Some (Inl e) \<Rightarrow> Some (Inl e)
           | Some (Inr stream) \<Rightarrow>
               Some (Inr (stream, if length (sg_cache g) < 10
                                  then g\<lparr>sg_cache := sg_cache g @ [(len, stream)]\<rparr>
                                  else g))))"

text \<open>
  The module keeps one generator, \<open>_stream_generator\<close>, created on first use with the
  default modulus 10 and no thread count. \<open>get_synthetic_stream\<close> passes neither its
  \<open>modulus\<close> nor its \<open>threads\<close> argument on.
\<close>

definition get_stream_generator :: "stream_generator option \<Rightarrow> stream_generator" where
  "get_stream_generator global =
     (case global of None \<Rightarrow> StreamGenerator_init None None 10 None | Some g \<Rightarrow> g)"

definition get_synthetic_stream ::
  "environment \<Rightarrow> stream_generator option \<Rightarrow> int \<Rightarrow> int \<Rightarrow> int \<Rightarrow> int \<Rightarrow> int \<Rightarrow> int option
     \<Rightarrow> (error + (u8 list \<times> stream_generator option)) option" where
  "get_synthetic_stream env global pi_seed e_seed len num_offsets modulus thr =
     (let generator = get_stream_generator global
      in case from_seeds env generator pi_seed e_seed num_offsets of
           Inl e \<Rightarrow> Some (Inl e)
         | Inr generator' \<Rightarrow>
             (case generate env generator' len of
                None \<Rightarrow> None
              | Some (Inl e) \<Rightarrow> Some (Inl e)
              | Some (Inr (stream, generator'')) \<Rightarrow> Some (Inr (stream, Some generator''))))"

section \<open>hashlib.sha256\<close>

text \<open>
  \<open>hashlib\<close> is not part of the repository. \<open>hashlib.sha256(data).hexdigest()\<close> is
  SHA-256 as FIPS 180-4 defines it, on the bytes of \<open>data\<close>, printed as 64 lower-case
  hexadecimal digits. Bytes and 32-bit words are natural numbers here, with the
  reduction modulo \<open>2\<^sup>3\<^sup>2\<close> written out; a rotation or shift to the right by \<open>n\<close> bits
  is given by the divisor \<open>2\<^sup>n\<close>.
\<close>

text \<open>The round constants and the initial hash value of the standard, in decimal.\<close>

definition sha_K :: "nat list" where
  "sha_K =
    [1116352408, 1899447441, 3049323471, 3921009573, 961987163, 1508970993, 2453635748, 2870763221,
     3624381080, 310598401, 607225278, 1426881987, 1925078388, 2162078206, 2614888103, 3248222580,
     3835390401, 4022224774, 264347078, 604807628, 770255983, 1249150122, 1555081692, 1996064986,
     2554220882, 2821834349, 2952996808, 3210313671, 3336571891, 3584528711, 113926993, 338241895,
     666307205, 773529912, 1294757372, 1396182291, 1695183700, 1986661051, 2177026350, 2456956037,
     2730485921, 2820302411, 3259730800, 3345764771, 3516065817, 3600352804, 4094571909, 275423344,
     430227734, 506948616, 659060556, 883997877, 958139571, 1322822218, 1537002063, 1747873779,
     1955562222, 2024104815, 2227730452, 2361852424, 2428436474, 2756734187, 3204031479, 3329325298]"

definition sha_H0 :: "nat list" where
  "sha_H0 = [1779033703, 3144134277, 1013904242, 2773480762,
             1359893119, 2600822924, 528734635, 1541459225]"

definition add32 :: "nat \<Rightarrow> nat \<Rightarrow> nat" where
  "add32 x y = (x + y) mod 4294967296"

definition not32 :: "nat \<Rightarrow> nat" where
  "not32 x = 4294967295 - x"

definition shr :: "nat \<Rightarrow> nat \<Rightarrow> nat" where
  "shr d x = x div d"

definition rotr :: "nat \<Rightarrow> nat \<Rightarrow> nat" where
  "rotr d x = x div d + (x mod d) * (4294967296 div d)"

definition sha_ch :: "nat \<Rightarrow> nat \<Rightarrow> nat \<Rightarrow> nat" where
  "sha_ch x y z = (x AND y) XOR (not32 x AND z)"

definition sha_maj :: "nat \<Rightarrow> nat \<Rightarrow> nat \<Rightarrow> nat" where
  "sha_maj x y z = (x AND y) XOR (x AND z) XOR (y AND z)"

text \<open>Rotations by 2, 13, 22 and by 6, 11, 25 bits.\<close>

definition big_sigma0 :: "nat \<Rightarrow> nat" where
  "big_sigma0 x = rotr 4 x XOR rotr 8192 x XOR rotr 4194304 x"

definition big_sigma1 :: "nat \<Rightarrow> nat" where
  "big_sigma1 x = rotr 64 x XOR rotr 2048 x XOR rotr 33554432 x"

text \<open>Rotations by 7 and 18 with a shift by 3, and by 17 and 19 with a shift by 10.\<close>

definition small_sigma0 :: "nat \<Rightarrow> nat" where
  "small_sigma0 x = rotr 128 x XOR rotr 262144 x XOR shr 8 x"

definition small_sigma1 :: "nat \<Rightarrow> nat" where
  "small_sigma1 x = rotr 131072 x XOR rotr 524288 x XOR shr 1024 x"

text \<open>Padding: the byte 80, zero bytes up to 56 modulo 64, the bit length in 8 bytes.\<close>

definition be_length :: "nat \<Rightarrow> nat list" where
  "be_length v = map (\<lambda>d. (v div d) mod 256)
     [72057594037927936, 281474976710656, 1099511627776, 4294967296, 16777216, 65536, 256, 1]"

definition sha_pad :: "nat list \<Rightarrow> nat list" where
  "sha_pad msg =
     msg @ [128] @ replicate ((119 - length msg mod 64) mod 64) 0 @ be_length (8 * length msg)"

fun be_words :: "nat list \<Rightarrow> nat list" where
  "be_words (a # b # c # d # rest) = (16777216 * a + 65536 * b + 256 * c + d) # be_words rest"
| "be_words _ = []"

text \<open>The message schedule: one further word for each of the round constants left,
  \<open>W\<^sub>t = \<sigma>\<^sub>1(W\<^sub>t\<^sub>-\<^sub>2) + W\<^sub>t\<^sub>-\<^sub>7 + \<sigma>\<^sub>0(W\<^sub>t\<^sub>-\<^sub>1\<^sub>5) + W\<^sub>t\<^sub>-\<^sub>1\<^sub>6\<close>.\<close>

definition sha_next :: "nat list \<Rightarrow> nat" where
  "sha_next w =
     add32 (add32 (small_sigma1 (w ! (length w - 2))) (w ! (length w - 7)))
           (add32 (small_sigma0 (w ! (length w - 15))) (w ! (length w - 16)))"

fun sha_schedule :: "'a list \<Rightarrow> nat list \<Rightarrow> nat list" where
  "sha_schedule [] w = w"
| "sha_schedule (k # ks) w = sha_schedule ks (w @ [sha_next w])"

fun sha_round :: "nat list \<Rightarrow> nat \<times> nat \<Rightarrow> nat list" where
  "sha_round [a, b, c, d, e, f, g, h] (k, w) =
     (let t1 = add32 (add32 (add32 h (big_sigma1 e)) (add32 (sha_ch e f g) k)) w;
          t2 = add32 (big_sigma0 a) (sha_maj a b c)
      in [add32 t1 t2, a, b, c, add32 d t1, e, f, g])"
| "sha_round st _ = st"

definition sha_block :: "nat list \<Rightarrow> nat list \<Rightarrow> nat list" where
  "sha_block h w16 =
     map2 add32 h (foldl sha_round h (zip sha_K (sha_schedule (drop 16 sha_K) w16)))"

function sha_blocks :: "nat list \<Rightarrow> nat list \<Rightarrow> nat list" where
  "sha_blocks h ws =
     (if length ws < 16 then h else sha_blocks (sha_block h (take 16 ws)) (drop 16 ws))"
  by pat_completeness auto
termination
  by (relation "measure (\<lambda>(h, ws). length ws)") auto

declare sha_blocks.simps [simp del]

definition sha256 :: "nat list \<Rightarrow> nat list" where
  "sha256 msg = sha_blocks sha_H0 (be_words (sha_pad msg))"

definition hex_word :: "nat \<Rightarrow> string" where
  "hex_word w = map (\<lambda>d. ''0123456789abcdef'' ! ((w div d) mod 16))
     [268435456, 16777216, 1048576, 65536, 4096, 256, 16, 1]"

text \<open>\<open>str.encode()\<close> on a string of ASCII characters: one byte for each.\<close>

definition encode :: "string \<Rightarrow> nat list" where
  "encode s = map of_char s"

definition sha256_hexdigest :: "string \<Rightarrow> string" where
  "sha256_hexdigest s = concat (map hex_word (sha256 (encode s)))"

subsection \<open>PatternMatcher.hash_follow_sequences\<close>

text \<open>\<open>str(d)\<close> of an array element: its value in decimal.\<close>

function str_nat :: "nat \<Rightarrow> string" where
  "str_nat n = (if n < 10 then [''0123456789'' ! n]
                else str_nat (n div 10) @ [''0123456789'' ! (n mod 10)])"
  by pat_completeness auto
termination
  by (relation "measure (\<lambda>n. n)") auto

declare str_nat.simps [simp del]

text \<open>The loop \<open>for seq in follow_sequences: seq_str += "".join(str(d) for d in seq) + "|"\<close>.\<close>

definition hash_follow_sequences :: "pattern_matcher \<Rightarrow> u8 list list \<Rightarrow> string" where
  "hash_follow_sequences m follow_sequences =
     (let seq_str = foldl (\<lambda>seq_str seq. seq_str @ concat (map (\<lambda>d. str_nat (unat d)) seq) @ ''|'')
                      [] follow_sequences
      in sha256_hexdigest seq_str)"

definition verify_follow_hash :: "pattern_matcher \<Rightarrow> u8 list list \<Rightarrow> string \<Rightarrow> bool" where
  "verify_follow_hash m follow_sequences expected_hash =
     (hash_follow_sequences m follow_sequences = expected_hash)"

subsection \<open>The hashed string as the specification words it\<close>

text \<open>Each sequence as its digits in decimal, the sequences joined with the separator, and a
  trailing separator.\<close>

fun join :: "string \<Rightarrow> string list \<Rightarrow> string" where
  "join sep [] = []"
| "join sep [x] = x"
| "join sep (x # y # ys) = x @ sep @ join sep (y # ys)"

definition spec_token_string :: "u8 list list \<Rightarrow> string" where
  "spec_token_string seqs =
     join ''|'' (map (\<lambda>seq. concat (map (\<lambda>d. str_nat (unat d)) seq)) seqs) @ ''|''"

section \<open>keys.py\<close>

text \<open>\<open>matches_cache\<close> is the field \<open>_matches\<close>.\<close>

record private_key =
  pi_seed :: int
  e_seed :: int
  pk_pattern :: pattern
  num_offsets :: int
  pk_modulus :: int
  pk_follow_digits :: int
  matches_cache :: "match list option"

record public_key =
  verification_token :: string
  pub_max_positions :: int
  pub_follow_digits :: int

definition PrivateKey_init ::
  "int \<Rightarrow> int \<Rightarrow> pattern \<Rightarrow> int \<Rightarrow> int \<Rightarrow> int \<Rightarrow> private_key" where
  "PrivateKey_init ps es p n modulus fd =
     \<lparr>pi_seed = ps, e_seed = es, pk_pattern = p, num_offsets = n, pk_modulus = modulus,
      pk_follow_digits = fd, matches_cache = None\<rparr>"

text \<open>
  \<open>PrivateKey.generate\<close>: \<open>ps\<close> and \<open>es\<close> are the two values of
  \<open>secrets.randbits(64)\<close>, \<open>ds\<close> and \<open>sp\<close> the digits and the spacing drawn with
  \<open>secrets.randbelow\<close>.
\<close>

definition PrivateKey_generate ::
  "int \<Rightarrow> int \<Rightarrow> int list \<Rightarrow> int list option \<Rightarrow> int \<Rightarrow> int \<Rightarrow> int \<Rightarrow> error + private_key" where
  "PrivateKey_generate ps es ds sp n modulus fd =
     (case Pattern_init ds sp of
        Inl e \<Rightarrow> Inl e
      | Inr p \<Rightarrow> Inr (PrivateKey_init ps es p n modulus fd))"

text \<open>
  The functions below take the module's stream generator \<open>global\<close> and give it back,
  together with the key, whose cache they may have filled.
\<close>

definition generate_stream ::
  "environment \<Rightarrow> stream_generator option \<Rightarrow> private_key \<Rightarrow> int
     \<Rightarrow> (error + (u8 list \<times> stream_generator option)) option" where
  "generate_stream env global k len =
     get_synthetic_stream env global (pi_seed k) (e_seed k) len (num_offsets k) (pk_modulus k) None"

definition find_pattern_matches ::
  "environment \<Rightarrow> stream_generator option \<Rightarrow> private_key \<Rightarrow> int
     \<Rightarrow> (error + (match list \<times> private_key \<times> stream_generator option)) option" where
  "find_pattern_matches env global k max_pos =
     (case matches_cache k of
        Some ms \<Rightarrow> Some (Inr (py_prefix ms max_pos, k, global))
      | None \<Rightarrow>
          (case generate_stream env global k 10000 of
             None \<Rightarrow> None
           | Some (Inl e) \<Rightarrow> Some (Inl e)
           | Some (Inr (stream, global')) \<Rightarrow>
               (let matcher = \<lparr>threads = None, follow_digits = pk_follow_digits k\<rparr>
                in case find_pattern (env_cpu_count env) matcher (pk_pattern k) stream max_pos 0 of
                     Inl e \<Rightarrow> Some (Inl e)
                   | Inr ms \<Rightarrow> Some (Inr (ms, k\<lparr>matches_cache := Some ms\<rparr>, global')))))"

definition get_follow_sequences ::
  "environment \<Rightarrow> stream_generator option \<Rightarrow> private_key \<Rightarrow> int
     \<Rightarrow> (error + (u8 list list \<times> private_key \<times> stream_generator option)) option" where
  "get_follow_sequences env global k max_pos =
     (case find_pattern_matches env global k max_pos of
        None \<Rightarrow> None
      | Some (Inl e) \<Rightarrow> Some (Inl e)
      | Some (Inr (ms, k', global')) \<Rightarrow> Some (Inr (map snd ms, k', global')))"

definition get_public_key ::
  "environment \<Rightarrow> stream_generator option \<Rightarrow> private_key \<Rightarrow> int
     \<Rightarrow> (error + (public_key \<times> private_key \<times> stream_generator option)) option" where
  "get_public_key env global k max_pos =
     (case get_follow_sequences env global k max_pos of
        None \<Rightarrow> None
      | Some (Inl e) \<Rightarrow> Some (Inl e)
      | Some (Inr (follow_sequences, k', global')) \<Rightarrow>
          (let matcher = \<lparr>threads = None, follow_digits = pk_follow_digits k\<rparr>;
               token = hash_follow_sequences matcher follow_sequences
           in Some (Inr (\<lparr>verification_token = token, pub_max_positions = max_pos,
                           pub_follow_digits = pk_follow_digits k\<rparr>, k', global'))))"

definition verify_key_pair ::
  "environment \<Rightarrow> stream_generator option \<Rightarrow> private_key \<Rightarrow> public_key
     \<Rightarrow> (error + (bool \<times> private_key \<times> stream_generator option)) option" where
  "verify_key_pair env global k pub =
     (case get_follow_sequences env global k (pub_max_positions pub) of
        None \<Rightarrow> None
      | Some (Inl e) \<Rightarrow> Some (Inl e)
      | Some (Inr (follow_sequences, k', global')) \<Rightarrow>
          (let matcher = \<lparr>threads = None, follow_digits = pk_follow_digits k\<rparr>;
               token = hash_follow_sequences matcher follow_sequences
           in Some (Inr (token = verification_token pub, k', global'))))"

section \<open>Conditions under which the pipeline returns\<close>

text \<open>A digit file that can be read: it holds an ASCII digit, and no other character
  that \<open>isdigit\<close> accepts.\<close>

definition clean_file :: "string \<Rightarrow> bool" where
  "clean_file f = (list_ex ascii_digit f \<and> list_all (\<lambda>c. isdigit c \<longrightarrow> ascii_digit c) f)"

text \<open>A store over two such files that exist, whose maps, when open, are these files and
  whose cached arrays have the length of their key.\<close>

definition store_ok :: "digit_store \<Rightarrow> bool" where
  "store_ok s =
     (case (pi_file s, e_file s) of
        (Some pf, Some ef) \<Rightarrow>
          clean_file pf \<and> clean_file ef
          \<and> (pi_mmap s = None \<or> pi_mmap s = Some pf)
          \<and> (e_mmap s = None \<or> e_mmap s = Some ef)
          \<and> list_all (\<lambda>((start, len), ds). length ds = nat len) (pi_cache s)
          \<and> list_all (\<lambda>((start, len), ds). length ds = nat len) (e_cache s)
      | _ \<Rightarrow> False)"

text \<open>What \<open>randint(0, max_offset, size=count)\<close> gives for a count that is not negative:
  \<open>count\<close> values in \<open>[0, max_offset)\<close>.\<close>

definition randint_ok :: "(int \<Rightarrow> int \<Rightarrow> int \<Rightarrow> int \<Rightarrow> error + int list) \<Rightarrow> bool" where
  "randint_ok rnd =
     (\<forall>rng count. 0 \<le> count \<longrightarrow>
        (\<exists>offsets. rnd rng 0 1000000000 count = Inr offsets \<and> length offsets = nat count
                   \<and> (\<forall>x\<in>set offsets. 0 \<le> x \<and> x < 1000000000)))"

definition env_ok :: "environment \<Rightarrow> bool" where
  "env_ok env = (store_ok (env_store env) \<and> randint_ok (env_randint env))"

text \<open>The module's generator, if it exists, has a modulus that fits \<open>uint8\<close> and a
  positive thread count or none.\<close>

definition generator_ok :: "stream_generator option \<Rightarrow> bool" where
  "generator_ok global =
     (case global of
        None \<Rightarrow> True
      | Some g \<Rightarrow> 0 \<le> sg_modulus g \<and> sg_modulus g \<le> 255
                  \<and> (case sg_threads g of None \<Rightarrow> True | Some t \<Rightarrow> 0 < t))"

text \<open>An environment for examples: four CPUs, the two files that \<open>download_digits\<close>
  writes, and a stand-in for the generator that repeats one offset.\<close>

definition example_env :: environment where
  "example_env =
     \<lparr>env_cpu_count = 4,
      env_randint = (\<lambda>rng lo hi count. Inr (replicate (nat count) (rng mod 1000000000))),
      env_store = DigitStore_init (Some PI_START) (Some E_START)\<rparr>"


text \<open>Two private keys whose patterns, 10001 digits long, cannot occur in a stream of
  10000 digits.\<close>

definition example_key_a :: private_key where
  "example_key_a =
     PrivateKey_init 12345 67890 \<lparr>digits = replicate 10001 0, spacing = None\<rparr> 50 10 25"

definition example_key_b :: private_key where
  "example_key_b =
     PrivateKey_init 1 2 \<lparr>digits = replicate 10001 1, spacing = None\<rparr> 100 10 25"

section \<open>Pattern construction and the matching rule\<close>

lemma py_get_in_range:
  "0 \<le> i \<Longrightarrow> i < int (length xs) \<Longrightarrow> py_get xs i = Inr (xs ! nat i)"
  by (simp add: py_get_def)

lemma spec_offset_nonneg:
  "\<forall>x\<in>set s. 0 \<le> x \<Longrightarrow> i \<le> length s \<Longrightarrow> 0 \<le> spec_offset (Some s) i"
  by (induction i) (auto simp: add_nonneg_nonneg)

lemma match_contiguous_spec:
  assumes "k + i + length ds \<le> length stream"
  shows "match_contiguous ds (int i) stream (int k) =
           Inr (\<forall>j<length ds. uint (stream ! (k + i + j)) = ds ! j)"
  using assms
proof (induction ds arbitrary: i)
  case Nil
  then show ?case by simp
next
  case (Cons d ds)
  have "py_get stream (int k + int i) = Inr (stream ! nat (int k + int i))"
    using Cons.prems by (intro py_get_in_range) auto
  then have g: "py_get stream (int k + int i) = Inr (stream ! (k + i))"
    by (simp add: nat_add_distrib)
  have e: "int (Suc i) = int i + 1" by simp
  have "match_contiguous ds (int (Suc i)) stream (int k) =
           Inr (\<forall>j<length ds. uint (stream ! (k + Suc i + j)) = ds ! j)"
    using Cons.prems by (intro Cons.IH) auto
  then have ih: "match_contiguous ds (int i + 1) stream (int k) =
           Inr (\<forall>j<length ds. uint (stream ! (k + Suc i + j)) = ds ! j)"
    unfolding e .
  have eq: "(\<forall>j<length (d # ds). uint (stream ! (k + i + j)) = (d # ds) ! j)
        \<longleftrightarrow> (uint (stream ! (k + i)) = d
            \<and> (\<forall>j<length ds. uint (stream ! (k + Suc i + j)) = ds ! j))"
    by (auto simp: All_less_Suc2)
  show ?case
    using g ih eq by simp
qed

lemma match_spaced_spec:
  assumes sp: "Suc (length sp) = length alld" "\<forall>x\<in>set sp. 0 \<le> x"
    and ds: "ds = drop i alld" "i \<le> length alld"
    and cur: "cur = int k + spec_offset (Some sp) (min i (length alld - 1))"
  shows "match_spaced ds (int i) (int (length alld)) sp stream cur =
           Inr (if (\<forall>j. i \<le> j \<and> j < length alld \<longrightarrow>
                      int k + spec_offset (Some sp) j < int (length stream)
                    \<and> uint (stream ! nat (int k + spec_offset (Some sp) j)) = alld ! j)
                then (True, int k + spec_offset (Some sp) (length alld - 1) + 1)
                else (False, -1))"
  using ds cur
proof (induction ds arbitrary: i cur)
  case Nil
  then have "i = length alld" by simp
  then show ?case using Nil by simp
next
  case (Cons d ds)
  let ?n = "length alld"
  let ?c = "spec_offset (Some sp)"
  have i: "i < ?n"
  proof (rule ccontr)
    assume "\<not> i < ?n"
    then have "drop i alld = []" by simp
    then show False using Cons.prems(1) by simp
  qed
  then have "drop i alld = alld ! i # drop (Suc i) alld"
    by (simp add: Cons_nth_drop_Suc)
  then have d: "d = alld ! i" and ds': "ds = drop (Suc i) alld"
    using Cons.prems(1) by simp_all
  have mi: "min i (?n - 1) = i" using i by simp
  have cur: "cur = int k + ?c i" using Cons.prems mi by simp
  have cnn: "0 \<le> ?c i" using sp i by (intro spec_offset_nonneg) auto
  have split: "(\<forall>j. i \<le> j \<and> j < ?n \<longrightarrow>
                      int k + ?c j < int (length stream)
                    \<and> uint (stream ! nat (int k + ?c j)) = alld ! j)
     \<longleftrightarrow> (int k + ?c i < int (length stream) \<and> uint (stream ! nat (int k + ?c i)) = alld ! i
          \<and> (\<forall>j. Suc i \<le> j \<and> j < ?n \<longrightarrow>
                      int k + ?c j < int (length stream)
                    \<and> uint (stream ! nat (int k + ?c j)) = alld ! j))"
    (is "?A \<longleftrightarrow> ?B \<and> ?C \<and> ?D")
  proof -
    have "(\<forall>j. i \<le> j \<and> j < ?n \<longrightarrow> P j) \<longleftrightarrow> (P i \<and> (\<forall>j. Suc i \<le> j \<and> j < ?n \<longrightarrow> P j))"
      for P :: "nat \<Rightarrow> bool"
    proof (intro iffI conjI allI impI)
      fix j assume a: "\<forall>j. i \<le> j \<and> j < ?n \<longrightarrow> P j" "Suc i \<le> j \<and> j < ?n"
      then show "P j" by simp
    next
      assume "\<forall>j. i \<le> j \<and> j < ?n \<longrightarrow> P j"
      then show "P i" using i by simp
    next
      fix j assume a: "P i \<and> (\<forall>j. Suc i \<le> j \<and> j < ?n \<longrightarrow> P j)" "i \<le> j \<and> j < ?n"
      show "P j"
      proof (cases "j = i")
        case True then show ?thesis using a by simp
      next
        case False
        then have "Suc i \<le> j" using a by simp
        then show ?thesis using a by blast
      qed
    qed
    from this[of "\<lambda>j. int k + ?c j < int (length stream)
                    \<and> uint (stream ! nat (int k + ?c j)) = alld ! j"]
    show ?thesis by blast
  qed
  show ?case
  proof (cases "cur \<ge> int (length stream)")
    case True
    then show ?thesis using cur split by simp
  next
    case False
    then have g: "py_get stream cur = Inr (stream ! nat cur)"
      using cur cnn by (intro py_get_in_range) auto
    show ?thesis
    proof (cases "uint (stream ! nat cur) = d")
      case ne: False
      then show ?thesis using False g cur split d by simp
    next
      case eq: True
      show ?thesis
      proof (cases "Suc i < ?n")
        case last: False
        then have "Suc i = ?n" using i by simp
        then have "ds = []" using ds' by simp
        moreover have "?n - 1 = i" using \<open>Suc i = ?n\<close> by simp
        moreover have "\<not> (int i < int ?n - 1)" using last by simp
        moreover have "?D" using last by auto
        ultimately show ?thesis using False g eq cur split d by simp
      next
        case more: True
        then have lt: "int i < int ?n - 1" by simp
        have gs: "py_get sp (int i) = Inr (sp ! i)"
          using more sp by (simp add: py_get_def)
        have "min (Suc i) (?n - 1) = Suc i" using more by simp
        then have ih0: "match_spaced ds (int (Suc i)) (int ?n) sp stream (cur + 1 + sp ! i) =
           Inr (if ?D then (True, int k + ?c (?n - 1) + 1) else (False, -1))"
          using more ds' cur by (intro Cons.IH) auto
        have e: "int (Suc i) = int i + 1" by simp
        have ih: "match_spaced ds (int i + 1) (int ?n) sp stream (cur + 1 + sp ! i) =
           Inr (if ?D then (True, int k + ?c (?n - 1) + 1) else (False, -1))"
          using ih0 unfolding e .
        show ?thesis
          using False g eq lt gs ih split cur d by simp
      qed
    qed
  qed
qed


lemma spec_offset_zero_spacing:
  "list_all (\<lambda>x. x = 0) s \<Longrightarrow> i \<le> length s \<Longrightarrow> spec_offset (Some s) i = int i"
  by (induction i) (auto simp: list_all_length)

lemma spec_match_iff:
  "spec_match p stream pos \<longleftrightarrow>
     (\<forall>i<length (digits p). pos + spec_offset (spacing p) i < int (length stream)
        \<and> uint (stream ! nat (pos + spec_offset (spacing p) i)) = digits p ! i)"
  by (auto simp: spec_match_def list_all_iff)

lemma extract_follow_digits_spec:
  assumes "0 \<le> e"
  shows "extract_follow_digits m stream e = spec_follow m stream e"
proof (cases "min (follow_digits m) (int (length stream) - e) \<le> 0")
  case True
  then have "follow_digits m \<le> 0 \<or> length stream \<le> nat e" using assms by auto
  then show ?thesis using True
    by (auto simp: extract_follow_digits_def spec_follow_def Let_def)
next
  case False
  let ?a = "min (follow_digits m) (int (length stream) - e)"
  from False assms have lo: "py_clip (length stream) e = nat e"
    by (auto simp: py_clip_def)
  from False assms have hi: "py_clip (length stream) (e + ?a) = nat e + nat ?a"
    by (auto simp: py_clip_def nat_add_distrib min_def)
  have "take (nat ?a) (drop (nat e) stream) = take (nat (follow_digits m)) (drop (nat e) stream)"
  proof (cases "follow_digits m \<le> int (length stream) - e")
    case True then show ?thesis by (simp add: min_def)
  next
    case False
    then have "?a = int (length stream) - e" by (simp add: min_def)
    moreover have "length (drop (nat e) stream) \<le> nat (follow_digits m)"
      using False assms by auto
    ultimately show ?thesis using assms by (simp add: nat_diff_distrib)
  qed
  then show ?thesis using False lo hi
    by (simp add: extract_follow_digits_def spec_follow_def Let_def py_slice_def)
qed

lemma match_at_position_spec:
  assumes init: "Pattern_init ds sp = Inr p"
    and nonneg: "\<forall>s. sp = Some s \<longrightarrow> (\<forall>x\<in>set s. 0 \<le> x)"
    and ne: "ds \<noteq> []"
    and pos: "0 \<le> pos"
  shows "match_at_position p stream pos =
           Inr (if spec_match p stream pos then (True, spec_end p pos) else (False, -1))
         \<and> (spec_match p stream pos \<longrightarrow>
              extract_follow_digits m stream (spec_end p pos) = spec_follow m stream (spec_end p pos))"
proof -
  let ?n = "length ds"
  let ?c = "spec_offset sp"
  from init have p: "digits p = ds" "spacing p = sp"
    and shape: "\<forall>s. sp = Some s \<longrightarrow> Suc (length s) = length ds"
    using ne by (auto simp: Pattern_init_def split: option.splits if_splits)
  obtain k where k: "pos = int k" using pos by (metis nat_0_le)
  have c0: "?c 0 = 0" by (cases sp) auto
  have cnn: "0 \<le> ?c i" if "i < ?n" for i
  proof (cases sp)
    case None then show ?thesis by simp
  next
    case (Some s)
    then show ?thesis using nonneg shape that spec_offset_nonneg[of s i] by auto
  qed
  have "0 \<le> spec_end p pos" using cnn[of "?n - 1"] ne pos by (simp add: spec_end_def p)
  then have follow: "extract_follow_digits m stream (spec_end p pos) = spec_follow m stream (spec_end p pos)"
    by (rule extract_follow_digits_spec)
  have main: "match_at_position p stream pos =
           Inr (if spec_match p stream pos then (True, spec_end p pos) else (False, -1))"
  proof (cases "pos \<ge> int (length stream)")
    case True
    have "\<not> spec_match p stream pos"
      using True ne c0 by (auto simp: spec_match_iff p intro!: exI[of _ 0])
    then show ?thesis using True by (simp add: match_at_position_def)
  next
    case inrange: False
    show ?thesis
    proof (cases "is_contiguous p")
      case True
      have ci: "?c i = int i" if "i < ?n" for i
      proof (cases sp)
        case None then show ?thesis by simp
      next
        case (Some s)
        then show ?thesis using True shape that spec_offset_zero_spacing[of s i]
          by (auto simp: is_contiguous_def p)
      qed
      have sm: "spec_match p stream pos \<longleftrightarrow>
                  (\<forall>i<?n. k + i < length stream \<and> uint (stream ! (k + i)) = ds ! i)"
        using ci by (auto simp: spec_match_iff p k nat_add_distrib)
      have se: "spec_end p pos = pos + int ?n"
      proof -
        have "0 < ?n" using ne by simp
        then have "int (?n - 1) + 1 = int ?n" by linarith
        then show ?thesis using ci[of "?n - 1"] ne by (simp add: spec_end_def p)
      qed
      show ?thesis
      proof (cases "pos + int ?n > int (length stream)")
        case over: True
        then have "\<not> (k + (?n - 1) < length stream)" using k ne by auto
        then have "\<not> spec_match p stream pos" using ne unfolding sm
          by (metis diff_less length_greater_0_conv zero_less_one)
        then show ?thesis using over inrange pos True
          by (simp add: match_at_position_def pattern_length_def p)
      next
        case fits: False
        then have le: "k + 0 + ?n \<le> length stream" using k by auto
        define b where "b = (\<forall>j<?n. uint (stream ! (k + j)) = ds ! j)"
        have mc: "match_contiguous ds 0 stream pos = Inr b"
          using match_contiguous_spec[OF le] k by (simp add: b_def)
        have "spec_match p stream pos = b"
          unfolding sm b_def using le by auto
        then show ?thesis using fits inrange pos True mc se
          by (cases b) (simp_all add: match_at_position_def pattern_length_def p)
      qed
    next
      case False
      then obtain s where s: "sp = Some s"
        by (cases sp) (auto simp: is_contiguous_def p)
      have sh: "Suc (length s) = length ds" and nn: "\<forall>x\<in>set s. 0 \<le> x"
        using shape nonneg s by auto
      have ms: "match_spaced (drop 0 ds) (int 0) (int (length ds)) s stream pos =
           Inr (if (\<forall>j. 0 \<le> j \<and> j < length ds \<longrightarrow>
                      int k + spec_offset (Some s) j < int (length stream)
                    \<and> uint (stream ! nat (int k + spec_offset (Some s) j)) = ds ! j)
                then (True, int k + spec_offset (Some s) (length ds - 1) + 1)
                else (False, -1))"
        by (rule match_spaced_spec[OF sh nn]) (simp_all add: k)
      have sm: "spec_match p stream pos \<longleftrightarrow> (\<forall>j. 0 \<le> j \<and> j < length ds \<longrightarrow>
                      int k + spec_offset (Some s) j < int (length stream)
                    \<and> uint (stream ! nat (int k + spec_offset (Some s) j)) = ds ! j)"
        by (simp add: spec_match_iff p k s)
      show ?thesis using False inrange pos ms sm
        by (simp add: match_at_position_def pattern_length_def p s spec_end_def k)
    qed
  qed
  show ?thesis using main follow by simp
qed

text \<open>
  Claim C6. For a pattern built by \<open>Pattern.__init__\<close> with at least one digit and
  gaps that are not negative, and a candidate position \<open>pos \<ge> 0\<close>:
  \<open>match_at_position\<close> succeeds exactly when every digit \<open>i\<close> of the pattern
  lies inside the stream at \<open>pos + c\<^sub>i\<close> and equals the stream value there; on success
  it returns the end position \<open>pos + c\<^sub>last + 1\<close>, and \<open>_extract_follow_digits\<close> at that
  end position is \<open>stream[end .. end+follow_digits)\<close> cut at the end of the stream
  (possibly empty), never an error.
\<close>

theorem match_at_position_rule:
  assumes init: "Pattern_init ds sp = Inr p"
    and nonneg: "\<forall>s. sp = Some s \<longrightarrow> (\<forall>x\<in>set s. 0 \<le> x)"
    and ne: "ds \<noteq> []"
    and pos: "0 \<le> pos"
  shows "match_at_position p stream pos =
           Inr (if spec_match p stream pos then (True, spec_end p pos) else (False, -1))
         \<and> (spec_match p stream pos \<longrightarrow>
              extract_follow_digits m stream (spec_end p pos) = spec_follow m stream (spec_end p pos))"
  using init nonneg ne pos by (rule match_at_position_spec)

theorem match_at_position_rule_witness:
  "Pattern_init [3, 1, 9] (Some [2, 3]) = Inr \<lparr>digits = [3, 1, 9], spacing = Some [2, 3]\<rparr>
   \<and> match_at_position \<lparr>digits = [3, 1, 9], spacing = Some [2, 3]\<rparr>
         [0, 0, 3, 5, 5, 1, 9, 9, 9, 9, 7, 7] 2 = Inr (True, 10)
   \<and> extract_follow_digits \<lparr>threads = None, follow_digits = 25\<rparr>
         [0, 0, 3, 5, 5, 1, 9, 9, 9, 9, 7, 7] 10 = [7, 7]"
proof -
  have init: "Pattern_init [3, 1, 9] (Some [2, 3]) = Inr \<lparr>digits = [3, 1, 9], spacing = Some [2, 3]\<rparr>"
    by (simp add: Pattern_init_def)
  have nonneg: "\<forall>s. Some [2, 3 :: int] = Some s \<longrightarrow> (\<forall>x\<in>set s. 0 \<le> x)" by simp
  have sm: "spec_match \<lparr>digits = [3, 1, 9], spacing = Some [2, 3]\<rparr>
         [0, 0, 3, 5, 5, 1, 9, 9, 9, 9, 7, 7] 2"
    by code_simp
  have se: "spec_end \<lparr>digits = [3, 1, 9], spacing = Some [2, 3]\<rparr> 2 = 10"
    by code_simp
  have sf: "spec_follow \<lparr>threads = None, follow_digits = 25\<rparr>
         [0, 0, 3, 5, 5, 1, 9, 9, 9, 9, 7, 7] 10 = [7, 7]"
    by code_simp
  show ?thesis
    using match_at_position_rule[OF init nonneg, of 2 "[0, 0, 3, 5, 5, 1, 9, 9, 9, 9, 7, 7]"
        "\<lparr>threads = None, follow_digits = 25\<rparr>"] init sm se sf
    by simp
qed

text \<open>
  Claim C8, as the code has it. \<open>Pattern.__init__\<close> raises ValueError exactly when a
  spacing list is given and its length differs from the number of digits minus one;
  in every other case the pattern is stored as given. The digits are not compared with
  any modulus: the constructor has no modulus.
\<close>

theorem Pattern_init_validation:
  "Pattern_init ds sp =
     (if (\<exists>s. sp = Some s \<and> int (length s) \<noteq> int (length ds) - 1)
      then Inl (ValueError ''Spacing list must be one element shorter than digit list'')
      else Inr \<lparr>digits = ds, spacing = sp\<rparr>)"
  by (cases sp) (simp_all add: Pattern_init_def)

text \<open>A digit outside \<open>[0, 10)\<close> is accepted.\<close>

theorem Pattern_init_digit_range_counterexample:
  "\<not> (0 \<le> (12::int) \<and> (12::int) < 10) \<and>
   Pattern_init [12] None = Inr \<lparr>digits = [12], spacing = None\<rparr>"
  by (simp add: Pattern_init_def)
section \<open>Sequential and parallel search\<close>

lemma match_at_position_total:
  assumes init: "Pattern_init ds sp = Inr p"
    and nonneg: "\<forall>s. sp = Some s \<longrightarrow> (\<forall>x\<in>set s. 0 \<le> x)"
  shows "scan_safe p stream"
  unfolding scan_safe_def
proof
  fix pos
  show "\<exists>r. match_at_position p stream pos = Inr r"
  proof (cases "pos < 0")
    case True
    then show ?thesis by (auto simp: match_at_position_def)
  next
    case False
    show ?thesis
    proof (cases "ds = []")
      case True
      then have "sp = None" "digits p = []" "spacing p = None"
        using init by (auto simp: Pattern_init_def split: option.splits if_splits)
      then show ?thesis
        by (auto simp: match_at_position_def is_contiguous_def pattern_length_def)
    next
      case ne: False
      from False have "0 \<le> pos" by simp
      from match_at_position_spec[OF init nonneg ne this, of stream]
      show ?thesis by auto
    qed
  qed
qed

lemma match_entry_cases:
  assumes "scan_safe p stream"
  obtains (hit) e where "match_at_position p stream pos = Inr (True, e)"
      "match_entry m p stream pos = Some (pos, extract_follow_digits m stream e)"
    | (miss) e where "match_at_position p stream pos = Inr (False, e)"
      "match_entry m p stream pos = None"
proof -
  from assms obtain b e where "match_at_position p stream pos = Inr (b, e)"
    unfolding scan_safe_def by (metis surj_pair)
  then show ?thesis using hit miss by (cases b) (auto simp: match_entry_def)
qed

lemma map_filter_Cons_Some: "f x = Some y \<Longrightarrow> List.map_filter f (x # xs) = y # List.map_filter f xs"
  by (simp add: List.map_filter_def)

lemma map_filter_Cons_None: "f x = None \<Longrightarrow> List.map_filter f (x # xs) = List.map_filter f xs"
  by (simp add: List.map_filter_def)

lemma scan_positions_eq:
  assumes safe: "scan_safe p stream" and "int (length acc) < k"
  shows "scan_positions m p stream k ps acc =
           Inr (take (nat k) (acc @ List.map_filter (match_entry m p stream) ps))"
  using assms(2)
proof (induction ps arbitrary: acc)
  case Nil
  then show ?case by (simp add: List.map_filter_def)
next
  case (Cons pos rest)
  consider (hit) e where "match_at_position p stream pos = Inr (True, e)"
      "match_entry m p stream pos = Some (pos, extract_follow_digits m stream e)"
    | (miss) e where "match_at_position p stream pos = Inr (False, e)"
      "match_entry m p stream pos = None"
    using match_entry_cases[OF safe] by blast
  then show ?case
  proof cases
    case (hit e)
    let ?r = "(pos, extract_follow_digits m stream e)"
    show ?thesis
    proof (cases "int (length (acc @ [?r])) \<ge> k")
      case True
      then have "nat k = Suc (length acc)" using Cons.prems by auto
      then show ?thesis using hit True
        by (simp add: map_filter_Cons_Some)
    next
      case False
      then have "int (length (acc @ [?r])) < k" by simp
      from Cons.IH[OF this] show ?thesis using hit False
        by (simp add: map_filter_Cons_Some)
    qed
  next
    case (miss e)
    then show ?thesis using Cons.IH[OF Cons.prems]
      by (simp add: map_filter_Cons_None)
  qed
qed


lemma gather_futures_eq:
  assumes "int (length acc) < k"
  shows "\<exists>n. gather_futures k (map (\<lambda>c. Inr (take (nat k) (H c))) chunks) acc
                 = Inr (acc @ take n (concat (map H chunks)))
             \<and> take (nat k) (acc @ take n (concat (map H chunks)))
                 = take (nat k) (acc @ concat (map H chunks))"
  using assms
proof (induction chunks arbitrary: acc)
  case Nil
  then show ?case by simp
next
  case (Cons c cs)
  let ?rest = "concat (map H cs)"
  let ?fs = "map (\<lambda>c. Inr (take (nat k) (H c))) cs"
  show ?case
  proof (cases "int (length (acc @ take (nat k) (H c))) \<ge> k")
    case True
    then have g: "gather_futures k (map (\<lambda>c. Inr (take (nat k) (H c))) (c # cs)) acc
                = Inr (acc @ take (nat k) (H c))"
      by simp
    from True Cons.prems have len: "nat k - length acc \<le> length (H c)" "nat k - length acc \<le> nat k"
      by auto
    let ?n = "min (nat k) (length (H c))"
    have n: "take ?n (concat (map H (c # cs))) = take (nat k) (H c)"
      by (cases "nat k \<le> length (H c)") (simp_all add: min_def)
    have "take (nat k) (acc @ take (nat k) (H c)) = take (nat k) (acc @ concat (map H (c # cs)))"
      using len by (simp add: min_def)
    show ?thesis
      apply (rule exI[of _ ?n])
      using g n \<open>take (nat k) (acc @ take (nat k) (H c)) = take (nat k) (acc @ concat (map H (c # cs)))\<close>
      by simp
  next
    case False
    then have short: "length (H c) < nat k" by auto
    then have tk: "take (nat k) (H c) = H c" by simp
    from False tk have "int (length (acc @ H c)) < k" by simp
    from Cons.IH[OF this] obtain n where
      n: "gather_futures k ?fs (acc @ H c) = Inr ((acc @ H c) @ take n ?rest)"
         "take (nat k) ((acc @ H c) @ take n ?rest) = take (nat k) ((acc @ H c) @ ?rest)"
      by blast
    have g: "gather_futures k (map (\<lambda>c. Inr (take (nat k) (H c))) (c # cs)) acc
                = Inr (acc @ H c @ take n ?rest)"
      using False tk n(1) by simp
    have "take (length (H c) + n) (concat (map H (c # cs))) = H c @ take n ?rest"
      by simp
    then show ?thesis
      apply (intro exI[of _ "length (H c) + n"])
      using g n(2) by simp
  qed
qed

lemma range_step_tiles:
  assumes "0 < s" "start \<le> a"
  shows "concat (map (\<lambda>i. py_range (max start i) (min (i + s) b)) (range_step a b s)) = py_range a b"
  using assms
proof (induction a b s rule: range_step.induct)
  case (1 a b s)
  show ?case
  proof (cases "a < b")
    case False
    then show ?thesis by (simp add: range_step.simps py_range_def)
  next
    case True
    have ih: "concat (map (\<lambda>i. py_range (max start i) (min (i + s) b)) (range_step (a + s) b s))
               = py_range (a + s) b"
      using 1 True by simp
    have mx: "max start a = a" using 1 by simp
    have "py_range a (min (a + s) b) @ py_range (a + s) b = py_range a b"
    proof (cases "a + s < b")
      case True
      then show ?thesis using 1(2) upto_split1[of a "a + s" "b - 1"]
        by (simp add: py_range_def min_def)
    next
      case False
      then show ?thesis by (simp add: py_range_def min_def)
    qed
    then show ?thesis using True 1(2) ih mx
      by (subst range_step.simps) simp
  qed
qed

lemma map_filter_concat:
  "List.map_filter f (concat xss) = concat (map (List.map_filter f) xss)"
  by (induction xss) (simp_all add: List.map_filter_def)

lemma fst_match_entry: "match_entry m p stream pos = Some r \<Longrightarrow> fst r = pos"
  by (auto simp: match_entry_def split: sum.splits prod.splits bool.splits)

lemma map_fst_map_filter:
  "map fst (List.map_filter (match_entry m p stream) ps)
     = filter (\<lambda>pos. match_entry m p stream pos \<noteq> None) ps"
proof (induction ps)
  case Nil
  show ?case by (simp add: List.map_filter_def)
next
  case (Cons a ps)
  show ?case
  proof (cases "match_entry m p stream a")
    case None
    then show ?thesis using Cons by (simp add: map_filter_Cons_None)
  next
    case (Some r)
    then have "fst r = a" by (rule fst_match_entry)
    then show ?thesis using Some Cons by (simp add: map_filter_Cons_Some)
  qed
qed

lemma sorted_all_matches: "sorted (map fst (all_matches m p stream start_from))"
  by (simp add: all_matches_def map_fst_map_filter py_range_def sorted_wrt_filter)

lemma py_prefix_take: "0 \<le> k \<Longrightarrow> py_prefix xs k = take (nat k) xs"
  by (simp add: py_prefix_def py_clip_def min_def)


lemma find_pattern_sequential_eq:
  assumes "scan_safe p stream" "1 \<le> k"
  shows "find_pattern_sequential m p stream k start_from
           = Inr (take (nat k) (all_matches m p stream start_from))"
  using scan_positions_eq[OF assms(1), of "[]" k m] assms(2)
  by (simp add: find_pattern_sequential_def all_matches_def)

lemma search_chunk_eq:
  assumes "scan_safe p stream" "1 \<le> k"
  shows "search_chunk m p stream a b k
           = Inr (take (nat k) (List.map_filter (match_entry m p stream) (py_range a b)))"
  using scan_positions_eq[OF assms(1), of "[]" k m] assms(2)
  by (simp add: search_chunk_def)

lemma find_pattern_parallel_eq:
  assumes safe: "scan_safe p stream" and k: "1 \<le> k"
    and thr: "\<forall>t. threads m = Some t \<longrightarrow> 0 \<le> t"
  shows "find_pattern_parallel cpu_count m p stream k start_from
           = Inr (take (nat k) (all_matches m p stream start_from))"
proof -
  define nthreads where "nthreads = (case threads m of
                        None \<Rightarrow> max 1 (cpu_count - 1)
                      | Some t \<Rightarrow> if t = 0 then max 1 (cpu_count - 1) else t)"
  define sl where "sl = int (length stream) - pattern_length p + 1"
  define cs where "cs = max 1000 (sl div nthreads)"
  define chunks where "chunks = search_chunks start_from sl cs"
  define H where "H = (\<lambda>c :: int \<times> int. List.map_filter (match_entry m p stream) (py_range (fst c) (snd c)))"
  have nt: "\<not> nthreads \<le> 0"
    using thr by (auto simp: nthreads_def split: option.splits)
  have cs: "0 < cs" by (simp add: cs_def)
  have futures: "map (\<lambda>(a, b). search_chunk m p stream a b k) chunks
                  = map (\<lambda>c. Inr (take (nat k) (H c))) chunks"
    by (rule map_cong) (auto simp: H_def search_chunk_eq[OF safe k])
  have tiles: "concat (map H chunks) = all_matches m p stream start_from"
  proof -
    have "concat (map H chunks)
            = List.map_filter (match_entry m p stream)
                (concat (map (\<lambda>i. py_range (max start_from i) (min (i + cs) sl))
                   (range_step start_from sl cs)))"
      by (simp add: chunks_def search_chunks_def H_def map_filter_concat comp_def)
    also have "\<dots> = List.map_filter (match_entry m p stream) (py_range start_from sl)"
      using range_step_tiles[OF cs, of start_from start_from sl] by simp
    finally show ?thesis by (simp add: all_matches_def sl_def)
  qed
  from gather_futures_eq[of "[]" k H chunks] k obtain n where
    n: "gather_futures k (map (\<lambda>c. Inr (take (nat k) (H c))) chunks) []
          = Inr (take n (concat (map H chunks)))"
       "take (nat k) (take n (concat (map H chunks))) = take (nat k) (concat (map H chunks))"
    by auto
  let ?r = "take n (all_matches m p stream start_from)"
  have "sorted (map fst ?r)"
    using sorted_all_matches[of m p stream start_from]
    by (simp add: take_map[symmetric] sorted_wrt_take del: take_map)
  then have srt: "sort_key fst ?r = ?r" by (rule sort_key_id_if_sorted)
  have pre: "py_prefix ?r k = take (nat k) ?r" using k by (intro py_prefix_take) simp
  have "find_pattern_parallel cpu_count m p stream k start_from
          = Inr (py_prefix (sort_key fst ?r) k)"
    using nt n(1)
    unfolding find_pattern_parallel_def Let_def nthreads_def[symmetric] sl_def[symmetric]
      cs_def[symmetric] chunks_def[symmetric] tiles[symmetric] futures
    by simp
  then show ?thesis using srt pre n(2) tiles by simp
qed

text \<open>
  Where the two searches agree. For \<open>max_positions \<ge> 1\<close>, every stream, every start
  position, every number of CPUs, a thread setting that is not negative, and every pattern
  built by \<open>Pattern.__init__\<close> whose gaps are not negative: \<open>_find_pattern_parallel\<close>
  returns exactly what \<open>_find_pattern_sequential\<close> returns, namely the first
  \<open>max_positions\<close> matches of the stream with their follow sequences, ascending by
  position. The futures are read in the order of the chunks, so the early \<open>break\<close> never
  drops a match of an earlier chunk.
\<close>

lemma find_pattern_parallel_eq_sequential:
  assumes init: "Pattern_init ds sp = Inr p"
    and nonneg: "\<forall>s. sp = Some s \<longrightarrow> (\<forall>x\<in>set s. 0 \<le> x)"
    and k: "1 \<le> max_positions"
    and thr: "\<forall>t. threads m = Some t \<longrightarrow> 0 \<le> t"
  shows "find_pattern_parallel cpu_count m p stream max_positions start_from
           = find_pattern_sequential m p stream max_positions start_from
       \<and> find_pattern_sequential m p stream max_positions start_from
           = Inr (take (nat max_positions) (all_matches m p stream start_from))
       \<and> sorted (map fst (all_matches m p stream start_from))"
proof -
  have safe: "scan_safe p stream" using init nonneg by (rule match_at_position_total)
  show ?thesis
    using find_pattern_parallel_eq[OF safe k thr] find_pattern_sequential_eq[OF safe k]
      sorted_all_matches by simp
qed

lemma find_pattern_parallel_eq_sequential_example:
  "Pattern_init [3] None = Inr \<lparr>digits = [3], spacing = None\<rparr>
   \<and> (1::int) \<le> 2
   \<and> find_pattern_parallel 4 \<lparr>threads = Some 2, follow_digits = 1\<rparr>
         \<lparr>digits = [3], spacing = None\<rparr> (replicate 2001 3) 2 0
       = find_pattern_sequential \<lparr>threads = Some 2, follow_digits = 1\<rparr>
         \<lparr>digits = [3], spacing = None\<rparr> (replicate 2001 3) 2 0
   \<and> find_pattern_sequential \<lparr>threads = Some 2, follow_digits = 1\<rparr>
         \<lparr>digits = [3], spacing = None\<rparr> (replicate 2001 3) 2 0
       = Inr [(0, [3]), (1, [3])]"
proof -
  have init: "Pattern_init [3] None = Inr \<lparr>digits = [3], spacing = None\<rparr>"
    by (simp add: Pattern_init_def)
  have nonneg: "\<forall>s. (None :: int list option) = Some s \<longrightarrow> (\<forall>x\<in>set s. 0 \<le> x)" by simp
  have k: "(1::int) \<le> 2" by simp
  have thr: "\<forall>t. threads \<lparr>threads = Some 2, follow_digits = 1\<rparr> = Some t \<longrightarrow> 0 \<le> t" by simp
  have r: "py_range 0 2001 = 0 # 1 # py_range 2 2001"
    by (simp add: py_range_def upto_rec1)
  have m0: "match_at_position \<lparr>digits = [3], spacing = None\<rparr> (replicate 2001 3) 0 = Inr (True, 1)"
    by (simp add: match_at_position_def is_contiguous_def pattern_length_def py_get_def)
  have m1: "match_at_position \<lparr>digits = [3], spacing = None\<rparr> (replicate 2001 3) 1 = Inr (True, 2)"
    by (simp add: match_at_position_def is_contiguous_def pattern_length_def py_get_def)
  have f1: "extract_follow_digits \<lparr>threads = Some 2, follow_digits = 1\<rparr> (replicate 2001 3) 1 = [3]"
    by (simp add: extract_follow_digits_def py_slice_def py_clip_def)
  have f2: "extract_follow_digits \<lparr>threads = Some 2, follow_digits = 1\<rparr> (replicate 2001 3) 2 = [3]"
    by (simp add: extract_follow_digits_def py_slice_def py_clip_def)
  have seq: "find_pattern_sequential \<lparr>threads = Some 2, follow_digits = 1\<rparr>
         \<lparr>digits = [3], spacing = None\<rparr> (replicate 2001 3) 2 0 = Inr [(0, [3]), (1, [3])]"
    by (simp add: find_pattern_sequential_def pattern_length_def r m0 m1 f1 f2)
  show ?thesis
    using find_pattern_parallel_eq_sequential[OF init nonneg k thr, of 4 "replicate 2001 3" 0]
      init seq by simp
qed

text \<open>
  Claim C2 at \<open>max_positions = 0\<close>, on a stream of 2001 threes searched for the pattern
  \<open>[3]\<close>, which occurs at every position and in all three chunks. Both scans append a
  match before they compare the count with \<open>max_positions\<close>. The sequential search
  therefore returns the first match, one more than \<open>max_positions\<close> allows, while the
  parallel search cuts what it gathered to \<open>results[:0]\<close> and returns nothing: the two
  variants do not return the same result, and the sequential result is not truncated to
  \<open>max_positions\<close>.
\<close>

theorem find_pattern_sequential_exceeds_max_positions:
  "find_pattern_sequential \<lparr>threads = Some 2, follow_digits = 1\<rparr>
       \<lparr>digits = [3], spacing = None\<rparr> (replicate 2001 3) 0 0 = Inr [(0, [3])]
   \<and> find_pattern_parallel 4 \<lparr>threads = Some 2, follow_digits = 1\<rparr>
       \<lparr>digits = [3], spacing = None\<rparr> (replicate 2001 3) 0 0 = Inr []
   \<and> find_pattern_parallel 4 \<lparr>threads = Some 2, follow_digits = 1\<rparr>
       \<lparr>digits = [3], spacing = None\<rparr> (replicate 2001 3) 0 0
     \<noteq> find_pattern_sequential \<lparr>threads = Some 2, follow_digits = 1\<rparr>
       \<lparr>digits = [3], spacing = None\<rparr> (replicate 2001 3) 0 0"
proof -
  have r: "py_range 0 2001 = 0 # py_range 1 2001" "py_range 0 1000 = 0 # py_range 1 1000"
    by (simp_all add: py_range_def upto_rec1)
  have m: "match_at_position \<lparr>digits = [3], spacing = None\<rparr> (replicate 2001 3) 0 = Inr (True, 1)"
    by (simp add: match_at_position_def is_contiguous_def pattern_length_def py_get_def)
  have f: "extract_follow_digits \<lparr>threads = Some 2, follow_digits = 1\<rparr> (replicate 2001 3) 1 = [3]"
    by (simp add: extract_follow_digits_def py_slice_def py_clip_def)
  have c: "search_chunks 0 2001 1000 = [(0, 1000), (1000, 2000), (2000, 2001)]"
    by (simp add: search_chunks_def range_step.simps)
  have s: "search_chunk \<lparr>threads = Some 2, follow_digits = 1\<rparr>
       \<lparr>digits = [3], spacing = None\<rparr> (replicate 2001 3) 0 1000 0 = Inr [(0, [3])]"
    by (simp add: search_chunk_def r m f)
  have seq: "find_pattern_sequential \<lparr>threads = Some 2, follow_digits = 1\<rparr>
       \<lparr>digits = [3], spacing = None\<rparr> (replicate 2001 3) 0 0 = Inr [(0, [3])]"
    by (simp add: find_pattern_sequential_def pattern_length_def r m f)
  have par: "find_pattern_parallel 4 \<lparr>threads = Some 2, follow_digits = 1\<rparr>
       \<lparr>digits = [3], spacing = None\<rparr> (replicate 2001 3) 0 0 = Inr []"
    by (simp add: find_pattern_parallel_def pattern_length_def c s py_prefix_def py_clip_def)
  show ?thesis using seq par by simp
qed
section \<open>The digit store and the synthesis return\<close>

lemma ascii_digit_isdigit: "ascii_digit c \<Longrightarrow> isdigit c"
  by (simp add: isdigit_def)

lemma clean_file_digit:
  assumes "clean_file f"
  obtains j where "j < length f" "isdigit (f ! j)"
proof -
  from assms obtain c where "c \<in> set f" "ascii_digit c"
    by (auto simp: clean_file_def list_ex_iff)
  then show ?thesis using that by (metis in_set_conv_nth ascii_digit_isdigit)
qed

lemma clean_file_int_of_char:
  assumes "clean_file f" "pos < length f" "isdigit (f ! pos)"
  shows "\<exists>v. int_of_char (f ! pos) = Inr v"
proof -
  have "ascii_digit (f ! pos)"
    using assms by (auto simp: clean_file_def list_all_iff)
  then show ?thesis by (simp add: int_of_char_def)
qed

lemma skip_digit_upto:
  assumes "j < length f" "isdigit (f ! j)" "pos \<le> j"
  shows "\<exists>p. skip_digit f pos = Some p"
  using assms(3)
proof (induction "j - pos" arbitrary: pos)
  case 0
  then have "pos = j" by simp
  then show ?case using assms by (subst skip_digit.simps) simp
next
  case (Suc d)
  then have lt: "pos < j" "Suc pos \<le> j" "d = j - Suc pos" by simp_all
  from Suc.hyps(1)[OF lt(3) lt(2)] obtain p where p: "skip_digit f (Suc pos) = Some p" ..
  show ?case
    using lt assms(1) p by (subst skip_digit.simps) auto
qed

lemma skip_digit_total:
  assumes "clean_file f"
  shows "\<exists>p. skip_digit f pos = Some p"
proof -
  from assms obtain j where j: "j < length f" "isdigit (f ! j)" by (rule clean_file_digit)
  have zero: "\<exists>p. skip_digit f 0 = Some p" using skip_digit_upto[OF j] by simp
  show ?thesis
  proof (induction "length f - pos" arbitrary: pos)
    case 0
    then show ?case by (subst skip_digit.simps) simp
  next
    case (Suc d)
    then have lt: "pos < length f" "d = length f - Suc pos" by simp_all
    from Suc.hyps(1)[OF lt(2)] obtain p where p: "skip_digit f (Suc pos) = Some p" ..
    show ?case
      using lt p zero by (subst skip_digit.simps) auto
  qed
qed

lemma skip_digits_total:
  assumes "clean_file f"
  shows "\<exists>p. skip_digits f n pos = Some p"
proof (induction n arbitrary: pos)
  case 0
  show ?case by simp
next
  case (Suc n)
  from skip_digit_total[OF assms] obtain p where "skip_digit f pos = Some p" ..
  then show ?case using Suc by simp
qed


text \<open>One more digit is read from any position, given that the rest of the loop returns.\<close>

lemma read_digits_step:
  assumes clean: "clean_file f" and cnt: "cnt < len"
    and rest: "\<And>pos' v. \<exists>r. read_digits f pos' (arr[cnt := v]) (Suc cnt) len = Some (Inr r)
                               \<and> length r = length arr"
  shows "\<exists>r. read_digits f pos arr cnt len = Some (Inr r) \<and> length r = length arr"
proof -
  from clean obtain j where j: "j < length f" "isdigit (f ! j)" by (rule clean_file_digit)
  let ?Q = "\<lambda>pos. \<exists>r. read_digits f pos arr cnt len = Some (Inr r) \<and> length r = length arr"
  have digit: "?Q pos" if "pos < length f" "isdigit (f ! pos)" for pos
  proof -
    from clean_file_int_of_char[OF clean that] obtain v where v: "int_of_char (f ! pos) = Inr v" ..
    from rest[of "pos + 1" v] show ?thesis
      using that cnt v by (subst read_digits.simps) (simp add: Let_def)
  qed
  have other: "?Q pos" if "pos < length f" "\<not> isdigit (f ! pos)" "?Q (pos + 1)" for pos
    using that cnt by (subst read_digits.simps) (simp add: Let_def)
  have upto: "?Q pos" if "pos \<le> j" for pos
    using that
  proof (induction "j - pos" arbitrary: pos)
    case 0
    then have "pos = j" by simp
    then show ?case using digit j by simp
  next
    case (Suc d)
    then have lt: "pos < length f" "pos + 1 \<le> j" "d = j - (pos + 1)" using j by simp_all
    from Suc.hyps(1)[OF lt(3) lt(2)] have "?Q (pos + 1)" .
    then show ?case using digit[OF lt(1)] other[OF lt(1)] by (cases "isdigit (f ! pos)") blast+
  qed
  have wrap: "?Q pos" if "length f \<le> pos" for pos
  proof -
    have "read_digits f pos arr cnt len = read_digits f 0 arr cnt len"
      using that by (subst read_digits.simps, subst (2) read_digits.simps) (simp add: Let_def)
    then show ?thesis using upto[of 0] by simp
  qed
  show ?thesis
  proof (induction "length f - pos" arbitrary: pos)
    case 0
    then show ?case using wrap by simp
  next
    case (Suc d)
    then have lt: "pos < length f" "d = length f - (pos + 1)" by simp_all
    from Suc.hyps(1)[OF lt(2)] have "?Q (pos + 1)" .
    then show ?case using digit[OF lt(1)] other[OF lt(1)] by (cases "isdigit (f ! pos)") blast+
  qed
qed

lemma read_digits_total:
  assumes clean: "clean_file f"
  shows "\<exists>r. read_digits f pos arr cnt len = Some (Inr r) \<and> length r = length arr"
proof (induction "len - cnt" arbitrary: pos arr cnt)
  case 0
  then show ?case by (subst read_digits.simps) simp
next
  case (Suc d)
  then have cnt: "cnt < len" and d: "d = len - Suc cnt" by simp_all
  have "\<exists>r. read_digits f pos' (arr[cnt := v]) (Suc cnt) len = Some (Inr r)
              \<and> length r = length arr" for pos' v
    using Suc.hyps(1)[OF d, of pos' "arr[cnt := v]"] by simp
  then show ?case by (rule read_digits_step[OF clean cnt])
qed

lemma extract_digits_total:
  assumes "clean_file f"
  shows "\<exists>ds. extract_digits f start len = Some (Inr ds) \<and> length ds = nat len"
proof -
  from skip_digits_total[OF assms] obtain p where
    p: "skip_digits f (nat start) (find_point f 0 + 1) = Some p" ..
  from read_digits_total[OF assms, of p "replicate (nat len) 0" 0 "nat len"]
  show ?thesis using p by (simp add: extract_digits_def)
qed


lemma clean_file_nonempty: "clean_file f \<Longrightarrow> f \<noteq> []"
  by (auto simp: clean_file_def)

lemma store_okE:
  assumes "store_ok s"
  obtains pf ef where "pi_file s = Some pf" "e_file s = Some ef" "clean_file pf" "clean_file ef"
    "pi_mmap s = None \<or> pi_mmap s = Some pf" "e_mmap s = None \<or> e_mmap s = Some ef"
    "list_all (\<lambda>((start, len), ds). length ds = nat len) (pi_cache s)"
    "list_all (\<lambda>((start, len), ds). length ds = nat len) (e_cache s)"
  using assms by (auto simp: store_ok_def split: option.splits)

lemma store_ok_open:
  assumes "store_ok s"
  obtains s1 where "DigitStore_open s = Inr s1" "store_ok s1"
    "pi_mmap s1 = pi_file s" "e_mmap s1 = e_file s" "pi_cache s1 = pi_cache s" "e_cache s1 = e_cache s"
proof -
  from assms obtain pf ef where f: "pi_file s = Some pf" "e_file s = Some ef"
    "clean_file pf" "clean_file ef"
    "list_all (\<lambda>((start, len), ds). length ds = nat len) (pi_cache s)"
    "list_all (\<lambda>((start, len), ds). length ds = nat len) (e_cache s)"
    by (rule store_okE)
  let ?s1 = "s\<lparr>pi_mmap := Some pf, e_mmap := Some ef\<rparr>"
  have "DigitStore_open s = Inr ?s1"
    using f clean_file_nonempty by (auto simp: DigitStore_open_def)
  moreover have "store_ok ?s1" using f by (simp add: store_ok_def)
  ultimately show ?thesis using that[of ?s1] f by simp
qed

lemma cached_length:
  assumes "list_all (\<lambda>((start, len), ds). length ds = nat len) cache"
    "map_of cache (start, len) = Some ds"
  shows "length ds = nat len"
  using assms by (auto simp: list_all_iff dest!: map_of_SomeD)

lemma get_pi_digits_total:
  assumes ok: "store_ok s" and range: "0 \<le> start" "0 < len"
  shows "\<exists>ds s'. get_pi_digits s start len = Some (Inr (ds, s')) \<and> length ds = nat len
                   \<and> store_ok s'"
proof (cases "map_of (pi_cache s) (start, len)")
  case (Some cached)
  from ok obtain pf ef where
    "list_all (\<lambda>((start, len), ds). length ds = nat len) (pi_cache s)"
    by (rule store_okE)
  then have "length cached = nat len" using Some by (rule cached_length)
  then show ?thesis using Some range ok by (simp add: get_pi_digits_def)
next
  case None
  obtain s1 pf where s1: "(if pi_mmap s = None then DigitStore_open s else Inr s) = Inr s1"
    "store_ok s1" "pi_mmap s1 = Some pf" "clean_file pf"
  proof (cases "pi_mmap s = None")
    case True
    from ok obtain s1 where o: "DigitStore_open s = Inr s1" "store_ok s1" "pi_mmap s1 = pi_file s"
      by (rule store_ok_open)
    from ok obtain pf ef where "pi_file s = Some pf" "clean_file pf" by (rule store_okE)
    then show ?thesis using that[of s1 pf] o True by simp
  next
    case False
    from ok obtain pf ef where "pi_file s = Some pf" "clean_file pf"
      "pi_mmap s = None \<or> pi_mmap s = Some pf" by (rule store_okE)
    then show ?thesis using that[of s pf] ok False by simp
  qed
  from extract_digits_total[OF s1(4), of start len] obtain ds where
    ds: "extract_digits pf start len = Some (Inr ds)" "length ds = nat len" by blast
  let ?s2 = "if length (pi_cache s1) < 100
             then s1\<lparr>pi_cache := pi_cache s1 @ [((start, len), ds)]\<rparr> else s1"
  have "store_ok ?s2"
    using s1(2) ds(2) by (auto simp: store_ok_def split: option.splits)
  moreover have "get_pi_digits s start len = Some (Inr (ds, ?s2))"
    using None range s1 ds(1) by (simp add: get_pi_digits_def)
  ultimately show ?thesis using ds(2) by blast
qed

lemma get_e_digits_total:
  assumes ok: "store_ok s" and range: "0 \<le> start" "0 < len"
  shows "\<exists>ds s'. get_e_digits s start len = Some (Inr (ds, s')) \<and> length ds = nat len
                   \<and> store_ok s'"
proof (cases "map_of (e_cache s) (start, len)")
  case (Some cached)
  from ok obtain pf ef where
    "list_all (\<lambda>((start, len), ds). length ds = nat len) (e_cache s)"
    by (rule store_okE)
  then have "length cached = nat len" using Some by (rule cached_length)
  then show ?thesis using Some range ok by (simp add: get_e_digits_def)
next
  case None
  obtain s1 ef where s1: "(if e_mmap s = None then DigitStore_open s else Inr s) = Inr s1"
    "store_ok s1" "e_mmap s1 = Some ef" "clean_file ef"
  proof (cases "e_mmap s = None")
    case True
    from ok obtain s1 where o: "DigitStore_open s = Inr s1" "store_ok s1" "e_mmap s1 = e_file s"
      by (rule store_ok_open)
    from ok obtain pf ef where "e_file s = Some ef" "clean_file ef" by (rule store_okE)
    then show ?thesis using that[of s1 ef] o True by simp
  next
    case False
    from ok obtain pf ef where "e_file s = Some ef" "clean_file ef"
      "e_mmap s = None \<or> e_mmap s = Some ef" by (rule store_okE)
    then show ?thesis using that[of s ef] ok False by simp
  qed
  from extract_digits_total[OF s1(4), of start len] obtain ds where
    ds: "extract_digits ef start len = Some (Inr ds)" "length ds = nat len" by blast
  let ?s2 = "if length (e_cache s1) < 100
             then s1\<lparr>e_cache := e_cache s1 @ [((start, len), ds)]\<rparr> else s1"
  have "store_ok ?s2"
    using s1(2) ds(2) by (auto simp: store_ok_def split: option.splits)
  moreover have "get_e_digits s start len = Some (Inr (ds, ?s2))"
    using None range s1 ds(1) by (simp add: get_e_digits_def)
  ultimately show ?thesis using ds(2) by blast
qed

lemma np_mod_total:
  assumes "0 \<le> modulus" "modulus \<le> 255"
  shows "\<exists>r. np_mod a modulus = Inr r \<and> length r = length a"
  using assms by (simp add: np_mod_def)

lemma add_pi_offsets_total:
  assumes "store_ok s" "\<forall>x\<in>set offsets. 0 \<le> x + start" "0 < cl"
    "0 \<le> modulus" "modulus \<le> 255" "length result = nat cl"
  shows "\<exists>r s'. add_pi_offsets s start cl modulus offsets result = Some (Inr (r, s'))
                  \<and> length r = nat cl \<and> store_ok s'"
  using assms(1,2,6)
proof (induction offsets arbitrary: s result)
  case Nil
  then show ?case by simp
next
  case (Cons x offsets)
  from get_pi_digits_total[OF Cons.prems(1), of "x + start" cl] Cons.prems(2) assms(3)
  obtain ds s1 where g: "get_pi_digits s (x + start) cl = Some (Inr (ds, s1))"
    "length ds = nat cl" "store_ok s1" by auto
  from np_mod_total[OF assms(4,5), of "np_add result ds"] obtain r1 where
    m: "np_mod (np_add result ds) modulus = Inr r1" "length r1 = nat cl"
    using g(2) Cons.prems(3) by (auto simp: np_add_def)
  from Cons.IH[OF g(3) _ m(2)] Cons.prems(2) show ?case using g(1) m(1) by simp
qed

lemma add_e_offsets_total:
  assumes "store_ok s" "\<forall>x\<in>set offsets. 0 \<le> x + start" "0 < cl"
    "0 \<le> modulus" "modulus \<le> 255" "length result = nat cl"
  shows "\<exists>r s'. add_e_offsets s start cl modulus offsets result = Some (Inr (r, s'))
                  \<and> length r = nat cl \<and> store_ok s'"
  using assms(1,2,6)
proof (induction offsets arbitrary: s result)
  case Nil
  then show ?case by simp
next
  case (Cons x offsets)
  from get_e_digits_total[OF Cons.prems(1), of "x + start" cl] Cons.prems(2) assms(3)
  obtain ds s1 where g: "get_e_digits s (x + start) cl = Some (Inr (ds, s1))"
    "length ds = nat cl" "store_ok s1" by auto
  from np_mod_total[OF assms(4,5), of "np_add result ds"] obtain r1 where
    m: "np_mod (np_add result ds) modulus = Inr r1" "length r1 = nat cl"
    using g(2) Cons.prems(3) by (auto simp: np_add_def)
  from Cons.IH[OF g(3) _ m(2)] Cons.prems(2) show ?case using g(1) m(1) by simp
qed

lemma generate_stream_chunk_total:
  assumes "store_ok s" "\<forall>x\<in>set pi_offsets. 0 \<le> x" "\<forall>x\<in>set e_offsets. 0 \<le> x"
    "0 \<le> start" "start < end" "0 \<le> modulus" "modulus \<le> 255"
  shows "\<exists>r. generate_stream_chunk s start end pi_offsets e_offsets modulus = Some (Inr r)
              \<and> length r = nat (end - start)"
proof -
  let ?cl = "end - start"
  have cl: "0 < ?cl" using assms(5) by simp
  have p: "\<forall>x\<in>set pi_offsets. 0 \<le> x + start" and e: "\<forall>x\<in>set e_offsets. 0 \<le> x + start"
    using assms(2,3,4) by auto
  from add_pi_offsets_total[OF assms(1) p cl assms(6,7), of "replicate (nat ?cl) 0"]
  obtain r1 s1 where a: "add_pi_offsets s start ?cl modulus pi_offsets (replicate (nat ?cl) 0)
        = Some (Inr (r1, s1))" "length r1 = nat ?cl" "store_ok s1" by auto
  from add_e_offsets_total[OF a(3) e cl assms(6,7) a(2)]
  obtain r2 s2 where b: "add_e_offsets s1 start ?cl modulus e_offsets r1 = Some (Inr (r2, s2))"
    "length r2 = nat ?cl" by auto
  show ?thesis using a(1) b by (simp add: generate_stream_chunk_def returned_def)
qed


lemma range_step_bounds:
  "0 < s \<Longrightarrow> i \<in> set (range_step a b s) \<Longrightarrow> a \<le> i \<and> i < b"
proof (induction a b s rule: range_step.induct)
  case (1 a b s)
  show ?case
  proof (cases "a < b")
    case True
    then have "range_step a b s = a # range_step (a + s) b s"
      using 1(2) by (subst range_step.simps) simp
    then show ?thesis using 1 True by auto
  next
    case False
    then have "range_step a b s = []" by (subst range_step.simps) simp
    then show ?thesis using 1(3) by simp
  qed
qed

lemma range_step_lengths:
  "0 < s \<Longrightarrow> sum_list (map (\<lambda>i. nat (min (i + s) b - i)) (range_step a b s)) = nat (b - a)"
proof (induction a b s rule: range_step.induct)
  case (1 a b s)
  show ?case
  proof (cases "a < b")
    case True
    then have r: "range_step a b s = a # range_step (a + s) b s"
      using 1(2) by (subst range_step.simps) simp
    have "sum_list (map (\<lambda>i. nat (min (i + s) b - i)) (range_step (a + s) b s)) = nat (b - (a + s))"
      using 1 True by simp
    moreover have "nat (min (a + s) b - a) + nat (b - (a + s)) = nat (b - a)"
      using True 1(2) by (auto simp: min_def)
    ultimately show ?thesis by (simp add: r)
  next
    case False
    then have "range_step a b s = []" by (subst range_step.simps) simp
    then show ?thesis using False by simp
  qed
qed

lemma range_step_nonempty: "0 < s \<Longrightarrow> a < b \<Longrightarrow> range_step a b s \<noteq> []"
  by (subst range_step.simps) simp

lemma first_error_all_returned:
  assumes "\<forall>c\<in>set cs. \<exists>r. f c = Some (Inr r) \<and> length r = n c"
  shows "\<exists>rs. first_error (map the (map f cs)) = Inr rs \<and> length rs = length cs
               \<and> length (concat rs) = sum_list (map n cs)"
  using assms
proof (induction cs)
  case Nil
  show ?case by simp
next
  case (Cons c cs)
  from Cons.prems obtain r where r: "f c = Some (Inr r)" "length r = n c" by auto
  from Cons obtain rs where rs: "first_error (map the (map f cs)) = Inr rs"
    "length rs = length cs" "length (concat rs) = sum_list (map n cs)" by auto
  show ?case using r rs by simp
qed

lemma collect_results_all_returned:
  assumes "\<forall>c\<in>set cs. \<exists>r. f c = Some (Inr r) \<and> length r = n c"
  shows "\<exists>rs. collect_results (map f cs) = Some (Inr rs) \<and> length rs = length cs
               \<and> length (concat rs) = sum_list (map n cs)"
proof -
  have "\<not> list_ex (\<lambda>r. r = None) (map f cs)"
    using assms by (auto simp: list_ex_iff)
  then show ?thesis using first_error_all_returned[OF assms]
    by (simp add: collect_results_def)
qed

lemma generate_synthetic_stream_total:
  assumes ok: "store_ok s"
    and offs: "\<forall>x\<in>set pi_offsets. 0 \<le> x" "\<forall>x\<in>set e_offsets. 0 \<le> x"
    and len: "0 < len" and m: "0 \<le> modulus" "modulus \<le> 255"
    and thr: "\<forall>t. thr = Some t \<longrightarrow> 0 < t"
  shows "\<exists>stream. generate_synthetic_stream cpus s pi_offsets e_offsets len modulus thr
                     = Some (Inr stream) \<and> length stream = nat len"
proof -
  define nthreads where "nthreads = (case thr of None \<Rightarrow> max 1 (cpus - 1) | Some t \<Rightarrow> t)"
  define cs where "cs = max 1 (len div nthreads)"
  define f where "f = (\<lambda>(start, end).
                        generate_stream_chunk s start end pi_offsets e_offsets modulus)"
  define n where "n = (\<lambda>(start :: int, end :: int). nat (end - start))"
  have nt: "0 < nthreads" using thr by (auto simp: nthreads_def split: option.splits)
  have cs: "0 < cs" by (simp add: cs_def)
  have each: "\<forall>c\<in>set (stream_chunks len cs). \<exists>r. f c = Some (Inr r) \<and> length r = n c"
  proof
    fix c assume "c \<in> set (stream_chunks len cs)"
    then obtain i where i: "i \<in> set (range_step 0 len cs)" "c = (i, min (i + cs) len)"
      by (auto simp: stream_chunks_def)
    from range_step_bounds[OF cs i(1)] have b: "0 \<le> i" "i < len" by simp_all
    then have "i < min (i + cs) len" using cs by simp
    from generate_stream_chunk_total[OF ok offs b(1) this m]
    show "\<exists>r. f c = Some (Inr r) \<and> length r = n c"
      by (simp add: f_def n_def i(2))
  qed
  from collect_results_all_returned[OF each] obtain rs where
    rs: "collect_results (map f (stream_chunks len cs)) = Some (Inr rs)"
      "length rs = length (stream_chunks len cs)"
      "length (concat rs) = sum_list (map n (stream_chunks len cs))" by blast
  have ne: "rs \<noteq> []"
    using rs(2) range_step_nonempty[OF cs len] by (auto simp: stream_chunks_def)
  have "sum_list (map n (stream_chunks len cs)) = nat len"
    using range_step_lengths[OF cs, of len 0]
    by (simp add: stream_chunks_def n_def comp_def)
  then have "length (concat rs) = nat len" using rs(3) by simp
  moreover have "generate_synthetic_stream cpus s pi_offsets e_offsets len modulus thr
                   = Some (Inr (concat rs))"
    using nt rs(1) ne
    unfolding generate_synthetic_stream_def Let_def nthreads_def[symmetric] cs_def[symmetric]
      f_def[symmetric]
    by simp
  ultimately show ?thesis by blast
qed

section \<open>Digit access and stream synthesis\<close>

text \<open>
  Claim C3 at the file that \<open>download_digits\<close> writes itself, \<open>PI_START\<close>, which holds 100
  digits after the point and ends in a digit. The skip loop wraps to the start of the
  file only after a byte that is no digit, so from \<open>start = 100\<close> on it no longer
  advances: one digit from position 100 and one digit from position 101 are \<open>3\<close> and \<open>3\<close>,
  while two digits from position 100 are \<open>3, 1\<close>. The concatenation of the two reads is
  not the read of the sum of the lengths.
\<close>

theorem digit_continuity_breaks_at_the_end:
  "returned (get_pi_digits (DigitStore_init (Some PI_START) (Some E_START)) 100 1) = Some (Inr [3])
   \<and> returned (get_pi_digits (DigitStore_init (Some PI_START) (Some E_START)) 101 1) = Some (Inr [3])
   \<and> returned (get_pi_digits (DigitStore_init (Some PI_START) (Some E_START)) 100 2) = Some (Inr [3, 1])"
  by code_simp

text \<open>
  Claim C5 at the same file, for the single offset 100, modulus 10 and length 2. With one
  worker the stream is one chunk, \<open>[3, 1]\<close>; with two workers it is two chunks of one
  digit, \<open>[3, 3]\<close>. The value at index 1 depends on the split, and in the first case it is
  not the digit that \<open>get_pi_digits(100 + 1, 1)\<close> returns.
\<close>

theorem synthetic_stream_depends_on_chunks:
  "generate_synthetic_stream 2 (DigitStore_init (Some PI_START) (Some E_START)) [100] [] 2 10 (Some 1)
     = Some (Inr [3, 1])
   \<and> generate_synthetic_stream 2 (DigitStore_init (Some PI_START) (Some E_START)) [100] [] 2 10 (Some 2)
     = Some (Inr [3, 3])
   \<and> returned (get_pi_digits (DigitStore_init (Some PI_START) (Some E_START)) (100 + 1) 1)
     = Some (Inr [3])"
  by code_simp

text \<open>
  The running sum is kept in \<open>uint8\<close>: with 29 offsets on the digit 9 and modulus 255 the
  sum 252 + 9 wraps to 5 before the remainder is taken, where \<open>29 * 9 mod 255\<close> is 6.
\<close>

lemma uint8_sum_wraps:
  "generate_synthetic_stream 2 (DigitStore_init (Some PI_START) (Some E_START))
       (replicate 29 4) [] 1 255 (Some 1) = Some (Inr [5])
   \<and> returned (get_pi_digits (DigitStore_init (Some PI_START) (Some E_START)) 4 1) = Some (Inr [9])
   \<and> (29 * 9) mod 255 = (6::nat)"
  by code_simp

text \<open>
  Claim C7, as the code has it. \<open>StreamGenerator.generate\<close> raises ValueError
  ("No offsets set") whenever both offset lists of the generator are empty, for every
  modulus, thread count, cache content and length, before anything is read.
\<close>

theorem generate_no_offsets:
  "sg_pi_offsets g = [] \<Longrightarrow> sg_e_offsets g = [] \<Longrightarrow>
   generate env g len
     = Some (Inl (ValueError ''No offsets set. Use set_parameters() or from_seeds() first.''))"
  by (simp add: generate_def)

theorem generate_no_offsets_witness:
  "sg_pi_offsets (StreamGenerator_init None None 10 None) = []
   \<and> sg_e_offsets (StreamGenerator_init None None 10 None) = []
   \<and> generate \<lparr>env_cpu_count = 4, env_randint = (\<lambda>seed lo hi n. Inr []),
                 env_store = DigitStore_init (Some PI_START) (Some E_START)\<rparr>
         (StreamGenerator_init None None 10 None) 1000
       = Some (Inl (ValueError ''No offsets set. Use set_parameters() or from_seeds() first.''))"
proof -
  have a: "sg_pi_offsets (StreamGenerator_init None None 10 None) = []"
    and b: "sg_e_offsets (StreamGenerator_init None None 10 None) = []"
    by (simp_all add: StreamGenerator_init_def)
  show ?thesis using generate_no_offsets[OF a b] a b by simp
qed

text \<open>The function \<open>generate_synthetic_stream\<close> itself has no such check: with two empty
  offset lists it returns a stream of zeros.\<close>

theorem generate_synthetic_stream_no_offsets_counterexample:
  "generate_synthetic_stream 2 (DigitStore_init (Some PI_START) (Some E_START)) [] [] 3 10 (Some 1)
     = Some (Inr [0, 0, 0])"
  by code_simp

text \<open>
  Claim C1 at the seed \<open>2\<^sup>3\<^sup>2\<close>, a 64-bit seed such as \<open>PrivateKey.generate\<close> draws with
  \<open>secrets.randbits(64)\<close>: \<open>np.random.RandomState\<close> rejects it, and
  \<open>_generate_offsets_from_seed\<close> raises ValueError instead of returning offsets, whatever
  the count.
\<close>

theorem generate_offsets_rejects_64_bit_seed:
  "(0::int) \<le> 2 ^ 32 \<and> (2::int) ^ 32 < 2 ^ 64
   \<and> generate_offsets_from_seed rnd (2 ^ 32) count
       = Inl (ValueError ''Seed must be between 0 and 2**32 - 1'')"
  by (simp add: generate_offsets_from_seed_def RandomState_def)

section \<open>The verification token\<close>

text \<open>SHA-256 of four short strings, computed by rewriting; the first is the test vector
  of the standard for the empty message.\<close>

lemmas sha_defs = sha_block_def sha_K_def sha_H0_def big_sigma0_def big_sigma1_def sha_ch_def
  sha_maj_def rotr_def small_sigma0_def small_sigma1_def add32_def not32_def shr_def sha_next_def

lemma replicate_numeral: "replicate (numeral k) x = x # replicate (pred_numeral k) x"
  by (simp add: numeral_eq_Suc)

lemma sha256_empty:
  "sha256_hexdigest '''' = ''e3b0c44298fc1c149afbf4c8996fb92427ae41e4649b934ca495991b7852b855''"
proof -
  have w: "be_words (sha_pad (encode '''')) =
      [2147483648, 0, 0, 0, 0, 0, 0, 0, 0, 0, 0, 0, 0, 0, 0, 0]"
    by (simp add: sha_pad_def encode_def be_length_def replicate_numeral)
  have b: "sha_block sha_H0
      [2147483648, 0, 0, 0, 0, 0, 0, 0, 0, 0, 0, 0, 0, 0, 0, 0] =
      [3820012610, 2566659092, 2600203464, 2574235940, 665731556, 1687917388, 2761267483, 2018687061]"
    by (simp add: sha_defs)
  show ?thesis
    unfolding sha256_hexdigest_def sha256_def w
    by (simp add: sha_blocks.simps b hex_word_def)
qed

lemma sha256_bar:
  "sha256_hexdigest ''|'' = ''cbe5cfdf7c2118a9c3d78ef1d684f3afa089201352886449a06a6511cfef74a7''"
proof -
  have w: "be_words (sha_pad (encode ''|'')) =
      [2088763392, 0, 0, 0, 0, 0, 0, 0, 0, 0, 0, 0, 0, 0, 0, 8]"
    by (simp add: sha_pad_def encode_def be_length_def replicate_numeral)
  have b: "sha_block sha_H0
      [2088763392, 0, 0, 0, 0, 0, 0, 0, 0, 0, 0, 0, 0, 0, 0, 8] =
      [3420835807, 2082543785, 3285683953, 3599037359, 2693341203, 1384670281, 2691327249, 3488576679]"
    by (simp add: sha_defs)
  show ?thesis
    unfolding sha256_hexdigest_def sha256_def w
    by (simp add: sha_blocks.simps b hex_word_def)
qed

lemma sha256_1_2:
  "sha256_hexdigest ''1|2|'' = ''5e78b5162f9dd69f2b1b1b3f02203d4319466dd77e1d7ff744337ea38059a492''"
proof -
  have w: "be_words (sha_pad (encode ''1|2|'')) =
      [830222972, 2147483648, 0, 0, 0, 0, 0, 0, 0, 0, 0, 0, 0, 0, 0, 32]"
    by (simp add: sha_pad_def encode_def be_length_def replicate_numeral)
  have b: "sha_block sha_H0
      [830222972, 2147483648, 0, 0, 0, 0, 0, 0, 0, 0, 0, 0, 0, 0, 0, 32] =
      [1584968982, 798873247, 723196735, 35667267, 424046039, 2115862519, 1144225443, 2153358482]"
    by (simp add: sha_defs)
  show ?thesis
    unfolding sha256_hexdigest_def sha256_def w
    by (simp add: sha_blocks.simps b hex_word_def)
qed

lemma sha256_2_1:
  "sha256_hexdigest ''2|1|'' = ''e13c50ccbaa1fb3155bd7646535d02d9a94529afbeec4e538f4095fb2de1dd66''"
proof -
  have w: "be_words (sha_pad (encode ''2|1|'')) =
      [846999932, 2147483648, 0, 0, 0, 0, 0, 0, 0, 0, 0, 0, 0, 0, 0, 32]"
    by (simp add: sha_pad_def encode_def be_length_def replicate_numeral)
  have b: "sha_block sha_H0
      [846999932, 2147483648, 0, 0, 0, 0, 0, 0, 0, 0, 0, 0, 0, 0, 0, 32] =
      [3778826444, 3131177777, 1438479942, 1398604505, 2839882159, 3203157587, 2403374587, 769776998]"
    by (simp add: sha_defs)
  show ?thesis
    unfolding sha256_hexdigest_def sha256_def w
    by (simp add: sha_blocks.simps b hex_word_def)
qed


lemma length_sha_round: "length (sha_round st x) = length st"
  by (induction st x rule: sha_round.induct) (simp_all add: Let_def)

lemma length_foldl_sha_round: "length (foldl sha_round st xs) = length st"
  by (induction xs arbitrary: st) (simp_all add: length_sha_round)

lemma length_sha_block: "length (sha_block h w) = length h"
  by (simp add: sha_block_def length_foldl_sha_round)

lemma length_sha_blocks: "length (sha_blocks h ws) = length h"
proof (induction h ws rule: sha_blocks.induct)
  case (1 h ws)
  then show ?case by (subst sha_blocks.simps) (simp add: length_sha_block)
qed

lemma length_sha256_hexdigest: "length (sha256_hexdigest s) = 64"
proof -
  have "length (sha256 (encode s)) = 8"
    by (simp add: sha256_def length_sha_blocks sha_H0_def)
  then obtain a b c d e f g h where "sha256 (encode s) = [a, b, c, d, e, f, g, h]"
    by (auto simp: length_Suc_conv eval_nat_numeral)
  then show ?thesis by (simp add: sha256_hexdigest_def hex_word_def)
qed

lemma foldl_token_string:
  "foldl (\<lambda>acc seq. acc @ f seq @ ''|'') acc0 seqs = acc0 @ concat (map (\<lambda>seq. f seq @ ''|'') seqs)"
  by (induction seqs arbitrary: acc0) simp_all

lemma join_trailing:
  "xs \<noteq> [] \<Longrightarrow> join ''|'' xs @ ''|'' = concat (map (\<lambda>x. x @ ''|'') xs)"
  by (induction "''|''" xs rule: join.induct) simp_all

lemma hash_follow_sequences_concat:
  "hash_follow_sequences m seqs =
     sha256_hexdigest (concat (map (\<lambda>seq. concat (map (\<lambda>d. str_nat (unat d)) seq) @ ''|'') seqs))"
  by (simp add: hash_follow_sequences_def foldl_token_string)

lemma spec_token_string_concat:
  "seqs \<noteq> [] \<Longrightarrow>
   spec_token_string seqs = concat (map (\<lambda>seq. concat (map (\<lambda>d. str_nat (unat d)) seq) @ ''|'') seqs)"
  using join_trailing[of "map (\<lambda>seq. concat (map (\<lambda>d. str_nat (unat d)) seq)) seqs"]
  by (simp add: spec_token_string_def comp_def)

text \<open>
  Claim C9, as the code has it. For a list of follow sequences that is not empty,
  \<open>hash_follow_sequences\<close> is the SHA-256 digest, in 64 hexadecimal digits, of the
  sequences rendered in decimal, joined with \<open>|\<close> and followed by one more \<open>|\<close>; for the
  empty list it is the digest of the empty string, without a separator. The token has 64
  characters, it is a function of the sequences in their order alone, and the order
  matters: \<open>[[1], [2]]\<close> and \<open>[[2], [1]]\<close> have different tokens.
\<close>

theorem hash_follow_sequences_token:
  "hash_follow_sequences m seqs
     = sha256_hexdigest (if seqs = [] then [] else spec_token_string seqs)
   \<and> length (hash_follow_sequences m seqs) = 64
   \<and> hash_follow_sequences m [[1], [2]] \<noteq> hash_follow_sequences m [[2], [1]]"
proof -
  have a: "hash_follow_sequences m seqs
     = sha256_hexdigest (if seqs = [] then [] else spec_token_string seqs)"
    by (cases "seqs = []") (simp_all add: hash_follow_sequences_concat spec_token_string_concat)
  have b: "length (hash_follow_sequences m seqs) = 64"
    by (simp add: hash_follow_sequences_concat length_sha256_hexdigest)
  have "hash_follow_sequences m [[1], [2]] = sha256_hexdigest ''1|2|''"
    and "hash_follow_sequences m [[2], [1]] = sha256_hexdigest ''2|1|''"
    by (simp_all add: hash_follow_sequences_concat str_nat.simps)
  then have c: "hash_follow_sequences m [[1], [2]] \<noteq> hash_follow_sequences m [[2], [1]]"
    by (simp add: sha256_1_2 sha256_2_1)
  show ?thesis using a b c by simp
qed

text \<open>For the empty list the string that is hashed is empty, not the lone separator that
  joining and appending a trailing separator would give.\<close>

theorem hash_follow_sequences_empty_counterexample:
  "hash_follow_sequences \<lparr>threads = None, follow_digits = 25\<rparr> []
     \<noteq> sha256_hexdigest (spec_token_string [])"
proof -
  have "hash_follow_sequences \<lparr>threads = None, follow_digits = 25\<rparr> [] = sha256_hexdigest ''''"
    by (simp add: hash_follow_sequences_concat)
  moreover have "spec_token_string [] = ''|''"
    by (simp add: spec_token_string_def)
  ultimately show ?thesis by (simp add: sha256_empty sha256_bar)
qed

section \<open>A new key finds its matches and verifies\<close>

lemma generate_offsets_total:
  assumes "randint_ok rnd" "0 \<le> seed" "seed < 2 ^ 32" "0 \<le> count"
  shows "\<exists>offsets. generate_offsets_from_seed rnd seed count = Inr offsets
                   \<and> length offsets = nat count \<and> (\<forall>x\<in>set offsets. 0 \<le> x)"
proof -
  from assms(1,4) obtain offsets where "rnd seed 0 1000000000 count = Inr offsets"
    "length offsets = nat count" "\<forall>x\<in>set offsets. 0 \<le> x \<and> x < 1000000000"
    unfolding randint_ok_def by blast
  then show ?thesis using assms(2,3)
    by (auto simp: generate_offsets_from_seed_def RandomState_def)
qed

lemma get_synthetic_stream_total:
  assumes env: "env_ok env" and gen: "generator_ok global"
    and seeds: "0 \<le> ps" "ps < 2 ^ 32" "0 \<le> es" "es < 2 ^ 32"
    and n: "1 \<le> n" and len: "0 < len"
  shows "\<exists>stream g'. get_synthetic_stream env global ps es len n modulus thr
                        = Some (Inr (stream, Some g'))
                     \<and> length stream = nat len \<and> generator_ok (Some g')"
proof -
  let ?g = "get_stream_generator global"
  have g: "0 \<le> sg_modulus ?g" "sg_modulus ?g \<le> 255" "\<forall>t. sg_threads ?g = Some t \<longrightarrow> 0 < t"
    using gen by (auto simp: generator_ok_def get_stream_generator_def StreamGenerator_init_def
        split: option.splits)
  from env have ok: "store_ok (env_store env)" and rnd: "randint_ok (env_randint env)"
    by (simp_all add: env_ok_def)
  from generate_offsets_total[OF rnd seeds(1,2), of n] n obtain po where
    po: "generate_offsets_from_seed (env_randint env) ps n = Inr po" "length po = nat n"
        "\<forall>x\<in>set po. 0 \<le> x" by auto
  from generate_offsets_total[OF rnd seeds(3,4), of n] n obtain eo where
    eo: "generate_offsets_from_seed (env_randint env) es n = Inr eo" "\<forall>x\<in>set eo. 0 \<le> x"
    by auto
  let ?g1 = "set_parameters ?g (Some po) (Some eo) None None"
  have fs: "from_seeds env ?g ps es n = Inr ?g1"
    using po(1) eo(1) by (simp add: from_seeds_def)
  have g1: "sg_pi_offsets ?g1 = po" "sg_e_offsets ?g1 = eo" "sg_modulus ?g1 = sg_modulus ?g"
    "sg_threads ?g1 = sg_threads ?g" "sg_cache ?g1 = []"
    by (simp_all add: set_parameters_def)
  have ne: "po \<noteq> []" using po(2) n by auto
  from generate_synthetic_stream_total[OF ok po(3) eo(2) len g(1,2,3), of "env_cpu_count env"]
  obtain stream where st: "generate_synthetic_stream (env_cpu_count env) (env_store env) po eo len
       (sg_modulus ?g) (sg_threads ?g) = Some (Inr stream)" "length stream = nat len"
    by blast
  let ?g2 = "?g1\<lparr>sg_cache := [(len, stream)]\<rparr>"
  have "generate env ?g1 len = Some (Inr (stream, ?g2))"
    using ne st(1) by (simp add: generate_def g1)
  then have "get_synthetic_stream env global ps es len n modulus thr
                        = Some (Inr (stream, Some ?g2))"
    using fs by (simp add: get_synthetic_stream_def)
  moreover have "generator_ok (Some ?g2)"
    using g by (auto simp: generator_ok_def g1 split: option.splits)
  ultimately show ?thesis using st(2) by blast
qed


lemma sort_key_take_all_matches:
  "sort_key fst (take n (all_matches m p stream start_from)) = take n (all_matches m p stream start_from)"
proof -
  have "sorted (map fst (take n (all_matches m p stream start_from)))"
    using sorted_all_matches[of m p stream start_from]
    by (simp add: take_map[symmetric] sorted_wrt_take del: take_map)
  then show ?thesis by (rule sort_key_id_if_sorted)
qed

lemma find_pattern_eq:
  assumes safe: "scan_safe p stream" and k: "1 \<le> k"
    and thr: "\<forall>t. threads m = Some t \<longrightarrow> 0 \<le> t"
  shows "find_pattern cpus m p stream k start_from
           = Inr (take (nat k) (all_matches m p stream start_from))"
  using find_pattern_parallel_eq[OF safe k thr, of cpus start_from]
    find_pattern_sequential_eq[OF safe k, of m start_from]
  by (simp add: find_pattern_def sort_key_take_all_matches)

lemma find_pattern_matches_fresh:
  assumes env: "env_ok env" and gen: "generator_ok global"
    and fresh: "matches_cache key = None"
    and seeds: "0 \<le> pi_seed key" "pi_seed key < 2 ^ 32" "0 \<le> e_seed key" "e_seed key < 2 ^ 32"
    and n: "1 \<le> num_offsets key"
    and pat: "Pattern_init ds sp = Inr (pk_pattern key)"
             "\<forall>s. sp = Some s \<longrightarrow> (\<forall>x\<in>set s. 0 \<le> x)"
    and k: "1 \<le> k"
  shows "\<exists>stream g'.
           generate_stream env global key 10000 = Some (Inr (stream, Some g'))
         \<and> length stream = 10000 \<and> generator_ok (Some g')
         \<and> find_pattern_matches env global key k
             = Some (Inr (take (nat k) (all_matches \<lparr>threads = None, follow_digits = pk_follow_digits key\<rparr>
                                          (pk_pattern key) stream 0),
                          key\<lparr>matches_cache := Some (take (nat k)
                                 (all_matches \<lparr>threads = None, follow_digits = pk_follow_digits key\<rparr>
                                          (pk_pattern key) stream 0))\<rparr>,
                          Some g'))"
proof -
  from get_synthetic_stream_total[OF env gen seeds n, of 10000 "pk_modulus key" None]
  obtain stream g' where st: "generate_stream env global key 10000 = Some (Inr (stream, Some g'))"
    "length stream = 10000" "generator_ok (Some g')"
    by (auto simp: generate_stream_def)
  have safe: "scan_safe (pk_pattern key) stream" using pat by (rule match_at_position_total)
  have "find_pattern (env_cpu_count env) \<lparr>threads = None, follow_digits = pk_follow_digits key\<rparr>
          (pk_pattern key) stream k 0
        = Inr (take (nat k) (all_matches \<lparr>threads = None, follow_digits = pk_follow_digits key\<rparr>
                                          (pk_pattern key) stream 0))"
    by (rule find_pattern_eq[OF safe k]) simp
  then show ?thesis using st fresh
    by (simp add: find_pattern_matches_def)
qed

lemma key_round_trip:
  assumes env: "env_ok env" and gen: "generator_ok global"
    and fresh: "matches_cache key = None"
    and seeds: "0 \<le> pi_seed key" "pi_seed key < 2 ^ 32" "0 \<le> e_seed key" "e_seed key < 2 ^ 32"
    and n: "1 \<le> num_offsets key"
    and pat: "Pattern_init ds sp = Inr (pk_pattern key)"
             "\<forall>s. sp = Some s \<longrightarrow> (\<forall>x\<in>set s. 0 \<le> x)"
    and k: "1 \<le> k"
  shows "\<exists>pub key' g'. get_public_key env global key k = Some (Inr (pub, key', g'))
           \<and> pub_max_positions pub = k
           \<and> verify_key_pair env g2 key' pub = Some (Inr (True, key', g2))"
proof -
  from find_pattern_matches_fresh[OF assms] obtain ms g' where
    f: "find_pattern_matches env global key k = Some (Inr (ms, key\<lparr>matches_cache := Some ms\<rparr>, Some g'))"
    and len: "length ms \<le> nat k"
    by (metis length_take min.cobounded2)
  let ?key' = "key\<lparr>matches_cache := Some ms\<rparr>"
  let ?pub = "\<lparr>verification_token = hash_follow_sequences
                   \<lparr>threads = None, follow_digits = pk_follow_digits key\<rparr> (map snd ms),
               pub_max_positions = k, pub_follow_digits = pk_follow_digits key\<rparr>"
  have g: "get_public_key env global key k = Some (Inr (?pub, ?key', Some g'))"
    using f by (simp add: get_public_key_def get_follow_sequences_def)
  have "py_prefix ms k = ms" using len k by (simp add: py_prefix_def py_clip_def)
  then have "verify_key_pair env g2 ?key' ?pub = Some (Inr (True, ?key', g2))"
    by (simp add: verify_key_pair_def get_follow_sequences_def find_pattern_matches_def)
  then show ?thesis using g by (intro exI[of _ ?pub] exI[of _ ?key'] exI[of _ "Some g'"]) simp
qed

lemma clean_PI_START: "clean_file PI_START"
  by code_simp

lemma clean_E_START: "clean_file E_START"
  by code_simp

lemma env_ok_example: "env_ok example_env"
proof -
  have "store_ok (DigitStore_init (Some PI_START) (Some E_START))"
    using clean_PI_START clean_E_START by (simp add: store_ok_def DigitStore_init_def)
  moreover have "randint_ok (\<lambda>rng lo hi count. Inr (replicate (nat count) (rng mod 1000000000)))"
    by (simp add: randint_ok_def)
  ultimately show ?thesis by (simp add: env_ok_def example_env_def)
qed

lemma no_match_when_pattern_longer:
  assumes "length stream < length (digits p)"
  shows "all_matches m p stream 0 = []"
  using assms by (simp add: all_matches_def py_range_def pattern_length_def List.map_filter_def)

section \<open>Key pairs\<close>

text \<open>
  Claim C4 at a private key with the seed \<open>2\<^sup>3\<^sup>2\<close>, a 64-bit seed such as
  \<open>PrivateKey.generate\<close> draws: \<open>get_public_key\<close> raises the ValueError of
  \<open>np.random.RandomState\<close>, for every pattern, environment and \<open>max_positions\<close>, so no
  public key is derived and nothing can be verified.
\<close>

theorem get_public_key_rejects_64_bit_seed:
  "(0::int) \<le> 2 ^ 32 \<and> (2::int) ^ 32 < 2 ^ 64
   \<and> get_public_key env global (PrivateKey_init (2 ^ 32) es p n modulus fd) max_pos
       = Some (Inl (ValueError ''Seed must be between 0 and 2**32 - 1''))"
  by (simp add: get_public_key_def get_follow_sequences_def find_pattern_matches_def
      generate_stream_def get_synthetic_stream_def from_seeds_def generate_offsets_from_seed_def
      RandomState_def PrivateKey_init_def)

text \<open>
  Claim C10. Hashing no follow sequences gives the SHA-256 digest of the empty string,
  whatever the matcher. So when the search of two new private keys finds no match,
  both public keys carry that one token, which depends on no field of either key, and
  each key verifies against the public key of the other.
\<close>

theorem no_match_keys_share_token:
  assumes fa: "matches_cache a = None" and fb: "matches_cache b = None"
    and na: "find_pattern_matches env ga a ka = Some (Inr ([], a', ga'))"
    and nb: "find_pattern_matches env gb b kb = Some (Inr ([], b', gb'))"
  shows "hash_follow_sequences m [] = sha256_hexdigest ''''
       \<and> get_public_key env ga a ka
           = Some (Inr (\<lparr>verification_token = sha256_hexdigest '''', pub_max_positions = ka,
                          pub_follow_digits = pk_follow_digits a\<rparr>, a', ga'))
       \<and> get_public_key env gb b kb
           = Some (Inr (\<lparr>verification_token = sha256_hexdigest '''', pub_max_positions = kb,
                          pub_follow_digits = pk_follow_digits b\<rparr>, b', gb'))
       \<and> verify_key_pair env g a'
             \<lparr>verification_token = sha256_hexdigest '''', pub_max_positions = kb,
              pub_follow_digits = pk_follow_digits b\<rparr> = Some (Inr (True, a', g))
       \<and> verify_key_pair env g b'
             \<lparr>verification_token = sha256_hexdigest '''', pub_max_positions = ka,
              pub_follow_digits = pk_follow_digits a\<rparr> = Some (Inr (True, b', g))"
proof -
  have h: "hash_follow_sequences m [] = sha256_hexdigest ''''" for m
    by (simp add: hash_follow_sequences_def)
  have ca: "matches_cache a' = Some []"
    using fa na by (auto simp: find_pattern_matches_def Let_def split: option.splits sum.splits)
  have cb: "matches_cache b' = Some []"
    using fb nb by (auto simp: find_pattern_matches_def Let_def split: option.splits sum.splits)
  have pa: "get_public_key env ga a ka
           = Some (Inr (\<lparr>verification_token = sha256_hexdigest '''', pub_max_positions = ka,
                          pub_follow_digits = pk_follow_digits a\<rparr>, a', ga'))"
    using na by (simp add: get_public_key_def get_follow_sequences_def h)
  have pb: "get_public_key env gb b kb
           = Some (Inr (\<lparr>verification_token = sha256_hexdigest '''', pub_max_positions = kb,
                          pub_follow_digits = pk_follow_digits b\<rparr>, b', gb'))"
    using nb by (simp add: get_public_key_def get_follow_sequences_def h)
  have e: "py_prefix ([] :: match list) k = []" for k
    by (simp add: py_prefix_def)
  have va: "verify_key_pair env g a'
             \<lparr>verification_token = sha256_hexdigest '''', pub_max_positions = kb,
              pub_follow_digits = pk_follow_digits b\<rparr> = Some (Inr (True, a', g))"
    using ca by (simp add: verify_key_pair_def get_follow_sequences_def find_pattern_matches_def e h)
  have vb: "verify_key_pair env g b'
             \<lparr>verification_token = sha256_hexdigest '''', pub_max_positions = ka,
              pub_follow_digits = pk_follow_digits a\<rparr> = Some (Inr (True, b', g))"
    using cb by (simp add: verify_key_pair_def get_follow_sequences_def find_pattern_matches_def e h)
  show ?thesis using h pa pb va vb by simp
qed

lemma example_key_search:
  assumes key: "key = PrivateKey_init ps es \<lparr>digits = replicate 10001 d, spacing = None\<rparr> n modulus fd"
    and seeds: "0 \<le> ps" "ps < 2 ^ 32" "0 \<le> es" "es < 2 ^ 32" and n: "1 \<le> n" and k: "1 \<le> k"
  shows "\<exists>g'. find_pattern_matches example_env None key k
                = Some (Inr ([], key\<lparr>matches_cache := Some []\<rparr>, Some g'))"
proof -
  have gen: "generator_ok None" by (simp add: generator_ok_def)
  have fresh: "matches_cache key = None" by (simp add: key PrivateKey_init_def)
  have pat: "Pattern_init (replicate 10001 d) None = Inr (pk_pattern key)"
    by (simp add: key PrivateKey_init_def Pattern_init_def)
  have nonneg: "\<forall>s. (None :: int list option) = Some s \<longrightarrow> (\<forall>x\<in>set s. 0 \<le> x)" by simp
  have s: "0 \<le> pi_seed key" "pi_seed key < 2 ^ 32" "0 \<le> e_seed key" "e_seed key < 2 ^ 32"
    "1 \<le> num_offsets key"
    using seeds n by (simp_all add: key PrivateKey_init_def)
  from find_pattern_matches_fresh[OF env_ok_example gen fresh s pat nonneg k]
  obtain stream g' where st: "length stream = 10000"
    "find_pattern_matches example_env None key k
       = Some (Inr (take (nat k) (all_matches \<lparr>threads = None, follow_digits = pk_follow_digits key\<rparr>
                                          (pk_pattern key) stream 0),
                    key\<lparr>matches_cache := Some (take (nat k)
                           (all_matches \<lparr>threads = None, follow_digits = pk_follow_digits key\<rparr>
                                          (pk_pattern key) stream 0))\<rparr>,
                    Some g'))"
    by blast
  have "all_matches \<lparr>threads = None, follow_digits = pk_follow_digits key\<rparr> (pk_pattern key) stream 0 = []"
    by (rule no_match_when_pattern_longer) (simp add: st(1) key PrivateKey_init_def)
  then show ?thesis using st(2) by auto
qed

text \<open>The two example keys in the example environment: both searches return, with no
  match, and each key verifies against the public key of the other.\<close>

theorem no_match_keys_share_token_witness:
  "\<exists>a' ga' b' gb'.
     matches_cache example_key_a = None \<and> matches_cache example_key_b = None
   \<and> find_pattern_matches example_env None example_key_a 5 = Some (Inr ([], a', ga'))
   \<and> find_pattern_matches example_env None example_key_b 3 = Some (Inr ([], b', gb'))
   \<and> get_public_key example_env None example_key_a 5
       = Some (Inr (\<lparr>verification_token = sha256_hexdigest '''', pub_max_positions = 5,
                      pub_follow_digits = 25\<rparr>, a', ga'))
   \<and> get_public_key example_env None example_key_b 3
       = Some (Inr (\<lparr>verification_token = sha256_hexdigest '''', pub_max_positions = 3,
                      pub_follow_digits = 25\<rparr>, b', gb'))
   \<and> verify_key_pair example_env ga' a'
         \<lparr>verification_token = sha256_hexdigest '''', pub_max_positions = 3,
          pub_follow_digits = 25\<rparr> = Some (Inr (True, a', ga'))
   \<and> verify_key_pair example_env ga' b'
         \<lparr>verification_token = sha256_hexdigest '''', pub_max_positions = 5,
          pub_follow_digits = 25\<rparr> = Some (Inr (True, b', ga'))"
proof -
  have fa: "matches_cache example_key_a = None" and fb: "matches_cache example_key_b = None"
    by (simp_all add: example_key_a_def example_key_b_def PrivateKey_init_def)
  from example_key_search[OF example_key_a_def, of 5] obtain ga where
    na: "find_pattern_matches example_env None example_key_a 5
           = Some (Inr ([], example_key_a\<lparr>matches_cache := Some []\<rparr>, Some ga))" by auto
  from example_key_search[OF example_key_b_def, of 3] obtain gb where
    nb: "find_pattern_matches example_env None example_key_b 3
           = Some (Inr ([], example_key_b\<lparr>matches_cache := Some []\<rparr>, Some gb))" by auto
  have fd: "pk_follow_digits example_key_a = 25" "pk_follow_digits example_key_b = 25"
    by (simp_all add: example_key_a_def example_key_b_def PrivateKey_init_def)
  show ?thesis
    using no_match_keys_share_token[OF fa fb na nb, of "\<lparr>threads = None, follow_digits = 25\<rparr>" "Some ga"] fa fb na nb
    unfolding fd
    by (intro exI[of _ "example_key_a\<lparr>matches_cache := Some []\<rparr>"] exI[of _ "Some ga"]
              exI[of _ "example_key_b\<lparr>matches_cache := Some []\<rparr>"] exI[of _ "Some gb"]) simp
qed

end
